theory Spec2Isabelle
  imports Complex_Main "HOL-Library.Log_Nat"
begin

section \<open>Rate limiting against a shared store: the model\<close>

text \<open>
  The development follows \<^verbatim>\<open>src/ratelimiter.ts\<close>: the class \<^verbatim>\<open>Ratelimit\<close> with its
  methods \<^verbatim>\<open>limit\<close> and \<^verbatim>\<open>blockUntilReady\<close>, and the four algorithms
  \<^verbatim>\<open>eventualWrite\<close>, \<^verbatim>\<open>fixedWindow\<close>, \<^verbatim>\<open>slidingWindow\<close> and \<^verbatim>\<open>tokenBucket\<close>,
  three of which run a Lua script inside the store.

  Numbers. Timestamps, durations, quotas and counters are mathematical integers
  (\<^typ>\<open>int\<close>); this agrees with the doubles of JavaScript and Lua as long as the magnitudes
  stay below \<open>2^53\<close>. \<^verbatim>\<open>Math.floor(a / b)\<close> is \<open>a div b\<close> and Lua's \<^verbatim>\<open>a % b\<close> is
  \<open>a mod b\<close> (both round towards minus infinity). The one place where the code leaves the
  integers is the weighted count of the sliding window, which the Lua script computes in
  doubles: there every operation is rounded as a double rounds it (see \<open>double\<close> below).

  Time. Every reading of \<^verbatim>\<open>Date.now()\<close> is an explicit argument \<open>now\<close>; the store
  uses the same clock for its expiries.

  Durations. The source turns a \<^verbatim>\<open>Duration\<close> into milliseconds with \<^verbatim>\<open>ms\<close> of
  \<^verbatim>\<open>duration.ts\<close> before anything else; that file is not among the sources, so each
  algorithm here takes the duration as the number of milliseconds \<^verbatim>\<open>ms\<close> returns.
\<close>

subsection \<open>Doubles\<close>

text \<open>
  A number of Lua is an IEEE 754 double. A double is kept as the rational it denotes, and
  \<open>double x\<close> is the double nearest to \<open>x\<close>, the one with the even significand when two
  are equally near: \<open>x\<close> is scaled by a power of two into the range from \<open>2^52\<close> to
  \<open>2^53\<close>, rounded to an integer, and scaled back. The exponent is not bounded, so
  \<open>double\<close> is the rounding of the hardware for magnitudes between \<open>2^-1022\<close> and
  \<open>2^1024\<close>, which contains every value the script computes from integers below \<open>2^53\<close>.
  Lua's \<^verbatim>\<open>a / b\<close>, \<^verbatim>\<open>a - b\<close>, \<^verbatim>\<open>a * b\<close> and \<^verbatim>\<open>a + b\<close> are the exact results
  rounded by \<open>double\<close>; comparisons are exact.
\<close>

definition pow2 :: "int \<Rightarrow> rat" where
  "pow2 e = (if 0 \<le> e then 2 ^ nat e else 1 / 2 ^ nat (- e))"

text \<open>For \<open>x > 0\<close>, the \<open>e\<close> with \<open>2^e \<le> x < 2^(e+1)\<close>.\<close>

definition exponent :: "rat \<Rightarrow> int" where
  "exponent x = (if 1 \<le> x then bitlen \<lfloor>x\<rfloor> - 1 else - bitlen (\<lceil>1 / x\<rceil> - 1))"

definition round_ties_even :: "rat \<Rightarrow> int" where
  "round_ties_even x =
     (let n = \<lfloor>x\<rfloor>; r = x - of_int n
      in if r < 1 / 2 then n else if 1 / 2 < r then n + 1 else if even n then n else n + 1)"

definition double :: "rat \<Rightarrow> rat" where
  "double x =
     (if x = 0 then 0
      else (let e = exponent \<bar>x\<bar> - 52
            in of_int (round_ties_even (x / pow2 e)) * pow2 e))"

subsection \<open>The response\<close>

record RatelimitResponse =
  success :: bool
  limit :: int
  remaining :: int
  reset :: int

subsection \<open>Keys\<close>

text \<open>
  \<^verbatim>\<open>[a, b].join(":")\<close> on two strings, and the decimal form that \<^verbatim>\<open>join\<close> gives an
  integer bucket index.
\<close>

definition join :: "string \<Rightarrow> string \<Rightarrow> string" where
  "join a b = a @ CHR '':'' # b"

definition digit_char :: "nat \<Rightarrow> char" where
  "digit_char d = char_of (48 + d)"

fun digits :: "nat \<Rightarrow> string" where
  "digits n = (if n < 10 then [digit_char n] else digits (n div 10) @ [digit_char (n mod 10)])"

declare digits.simps [simp del]

definition number_toString :: "int \<Rightarrow> string" where
  "number_toString i = (if i < 0 then CHR ''-'' # digits (nat (- i)) else digits (nat i))"

definition join_number :: "string \<Rightarrow> int \<Rightarrow> string" where
  "join_number identifier bucket = join identifier (number_toString bucket)"

text \<open>Reading a decimal numeral back; used only to show that the decimal form is injective.\<close>

definition digit_value :: "char \<Rightarrow> nat" where
  "digit_value c = of_char c - 48"

definition digits_value :: "string \<Rightarrow> nat" where
  "digits_value cs = foldl (\<lambda>a c. 10 * a + digit_value c) 0 cs"

subsection \<open>The store\<close>

text \<open>
  A key of the store holds either a string that is an integer (the counters of the window
  algorithms) or a hash with the two fields \<^verbatim>\<open>updatedAt\<close> and \<^verbatim>\<open>tokens\<close> (the token
  bucket; \<^verbatim>\<open>HMSET\<close> always writes both). An entry may carry an expiry, kept as the
  absolute time in milliseconds at which the key stops existing. Expired entries are not
  removed from the map; every command looks a key up through \<open>lookup\<close>, which does not see
  them.

  A command applied to a key that holds the other kind of value fails (\<open>WrongType\<close>) and
  changes nothing. The two remaining errors are the ones \<^verbatim>\<open>blockUntilReady\<close> throws.

  The store itself is outside the repository. The commands are the ones the source names:
  \<^verbatim>\<open>INCR\<close>, \<^verbatim>\<open>GET\<close>, \<^verbatim>\<open>PEXPIRE\<close>, \<^verbatim>\<open>HMGET\<close> and \<^verbatim>\<open>HMSET\<close> in the scripts, and the
  methods \<^verbatim>\<open>eval\<close>, \<^verbatim>\<open>get\<close>, \<^verbatim>\<open>incr\<close> and \<^verbatim>\<open>expire\<close> of the client, which the
  configuration documents as an instance of \<^verbatim>\<open>@upstash/redis\<close> (its interface,
  \<^verbatim>\<open>types.ts\<close>, is not among the sources); each method sends the command of its name.
  Failures of the network are not modelled. Counters are unbounded.
\<close>

datatype rvalue = Counter int | Bucket int int

record entry =
  val :: rvalue
  expireAt :: "int option"

type_synonym database = "string \<Rightarrow> entry option"

datatype error = TimeoutMustBePositive | ThisShouldNotHappen | WrongType

text \<open>The commands a client sends; the store's log of them is part of its state.\<close>

datatype call = EVAL "string list" "int list" | GET string | INCR string | EXPIRE string int

record redis =
  db :: database
  calls :: "call list"

definition lookup :: "database \<Rightarrow> int \<Rightarrow> string \<Rightarrow> entry option" where
  "lookup d now k =
     (case d k of
        None \<Rightarrow> None
      | Some e \<Rightarrow> (case expireAt e of
                     None \<Rightarrow> Some e
                   | Some t \<Rightarrow> if t \<le> now then None else Some e))"

text \<open>The commands as they act on the database at time \<open>now\<close>.\<close>

definition call_GET :: "int \<Rightarrow> string \<Rightarrow> database \<Rightarrow> error + int option" where
  "call_GET now k d =
     (case lookup d now k of
        None \<Rightarrow> Inr None
      | Some e \<Rightarrow> (case val e of Counter c \<Rightarrow> Inr (Some c) | Bucket u t \<Rightarrow> Inl WrongType))"

definition call_INCR :: "int \<Rightarrow> string \<Rightarrow> database \<Rightarrow> error + (int \<times> database)" where
  "call_INCR now k d =
     (case lookup d now k of
        None \<Rightarrow> Inr (1, d(k \<mapsto> \<lparr>val = Counter 1, expireAt = None\<rparr>))
      | Some e \<Rightarrow> (case val e of
                     Counter c \<Rightarrow> Inr (c + 1, d(k \<mapsto> e\<lparr>val := Counter (c + 1)\<rparr>))
                   | Bucket u t \<Rightarrow> Inl WrongType))"

text \<open>\<^verbatim>\<open>PEXPIRE key ms\<close>: no effect on a missing key; a non-positive time deletes the key.\<close>

definition call_PEXPIRE :: "int \<Rightarrow> string \<Rightarrow> int \<Rightarrow> database \<Rightarrow> database" where
  "call_PEXPIRE now k ttl d =
     (case lookup d now k of
        None \<Rightarrow> d
      | Some e \<Rightarrow> if ttl \<le> 0 then d(k := None) else d(k \<mapsto> e\<lparr>expireAt := Some (now + ttl)\<rparr>))"

text \<open>
  The client's \<^verbatim>\<open>expire(key, time)\<close> sets an expiry as \<^verbatim>\<open>PEXPIRE\<close> does. The unit in
  which it counts \<open>time\<close> is fixed by the client's interface, which is not among the
  sources: the command \<^verbatim>\<open>EXPIRE\<close> of the store counts seconds, the specification's
  \<^verbatim>\<open>expire(key, ttlMillis)\<close> milliseconds. The length of that unit in milliseconds is
  the parameter \<open>unit\<close> (\<open>1000\<close> for seconds, \<open>1\<close> for milliseconds).
\<close>

definition call_EXPIRE :: "int \<Rightarrow> int \<Rightarrow> string \<Rightarrow> int \<Rightarrow> database \<Rightarrow> database" where
  "call_EXPIRE unit now k time d = call_PEXPIRE now k (time * unit) d"

text \<open>\<^verbatim>\<open>HMGET key updatedAt tokens\<close>: \<open>None\<close> stands for the reply of two nils.\<close>

definition call_HMGET :: "int \<Rightarrow> string \<Rightarrow> database \<Rightarrow> error + (int \<times> int) option" where
  "call_HMGET now k d =
     (case lookup d now k of
        None \<Rightarrow> Inr None
      | Some e \<Rightarrow> (case val e of Bucket u t \<Rightarrow> Inr (Some (u, t)) | Counter c \<Rightarrow> Inl WrongType))"

definition call_HMSET :: "int \<Rightarrow> string \<Rightarrow> int \<Rightarrow> int \<Rightarrow> database \<Rightarrow> error + database" where
  "call_HMSET now k u t d =
     (case lookup d now k of
        None \<Rightarrow> Inr (d(k \<mapsto> \<lparr>val = Bucket u t, expireAt = None\<rparr>))
      | Some e \<Rightarrow> (case val e of
                     Bucket u' t' \<Rightarrow> Inr (d(k \<mapsto> e\<lparr>val := Bucket u t\<rparr>))
                   | Counter c \<Rightarrow> Inl WrongType))"

text \<open>
  The client's side. Each request is logged. \<^verbatim>\<open>eval\<close> runs a script, given here as the
  function \<open>body\<close> of the database, as one request; a script that fails has written nothing
  (in the three scripts below every command that can fail comes before the first write).
\<close>

definition log :: "call \<Rightarrow> redis \<Rightarrow> redis" where
  "log c s = s\<lparr>calls := calls s @ [c]\<rparr>"

definition redis_eval ::
  "string list \<Rightarrow> int list \<Rightarrow> (database \<Rightarrow> error + ('a \<times> database)) \<Rightarrow> redis \<Rightarrow> (error + 'a) \<times> redis" where
  "redis_eval keys args body s =
     (case body (db s) of
        Inl e \<Rightarrow> (Inl e, log (EVAL keys args) s)
      | Inr (r, d) \<Rightarrow> (Inr r, log (EVAL keys args) (s\<lparr>db := d\<rparr>)))"

definition redis_get :: "int \<Rightarrow> string \<Rightarrow> redis \<Rightarrow> (error + int option) \<times> redis" where
  "redis_get now k s = (call_GET now k (db s), log (GET k) s)"

definition redis_incr :: "int \<Rightarrow> string \<Rightarrow> redis \<Rightarrow> (error + int) \<times> redis" where
  "redis_incr now k s =
     (case call_INCR now k (db s) of
        Inl e \<Rightarrow> (Inl e, log (INCR k) s)
      | Inr (r, d) \<Rightarrow> (Inr r, log (INCR k) (s\<lparr>db := d\<rparr>)))"

definition redis_expire :: "int \<Rightarrow> int \<Rightarrow> string \<Rightarrow> int \<Rightarrow> redis \<Rightarrow> redis" where
  "redis_expire unit now k time s = log (EXPIRE k time) (s\<lparr>db := call_EXPIRE unit now k time (db s)\<rparr>)"

subsection \<open>The algorithms\<close>

text \<open>
  A \<^verbatim>\<open>Ratelimiter\<close> takes the context (here the store), the identifier, and reads the
  clock; it returns a response or fails, and leaves the store in a new state.
\<close>

type_synonym Ratelimiter = "string \<Rightarrow> int \<Rightarrow> redis \<Rightarrow> (error + RatelimitResponse) \<times> redis"

subsubsection \<open>Fixed window\<close>

definition fixedWindow_script :: "string \<Rightarrow> int \<Rightarrow> int \<Rightarrow> database \<Rightarrow> error + (int \<times> database)" where
  "fixedWindow_script key window now d =
     (case call_INCR now key d of
        Inl e \<Rightarrow> Inl e
      | Inr (r, d1) \<Rightarrow> Inr (r, if r = 1 then call_PEXPIRE now key window d1 else d1))"

definition fixedWindow :: "int \<Rightarrow> int \<Rightarrow> Ratelimiter" where
  "fixedWindow tokens windowDuration identifier now s =
     (let bucket = now div windowDuration;
          key = join_number identifier bucket
      in case redis_eval [key] [windowDuration] (fixedWindow_script key windowDuration now) s of
           (Inl e, s') \<Rightarrow> (Inl e, s')
         | (Inr usedTokensAfterUpdate, s') \<Rightarrow>
             (Inr \<lparr>success = usedTokensAfterUpdate \<le> tokens,
                   limit = tokens,
                   remaining = tokens - usedTokensAfterUpdate,
                   reset = (bucket + 1) * windowDuration\<rparr>, s'))"

subsubsection \<open>Sliding window\<close>

text \<open>
  The script returns \<open>0\<close> without writing when the weighted count has reached the quota,
  and \<open>tokens - newValue\<close> after its increment otherwise. The weighted count is computed
  in doubles, one rounding for each of the four operations; \<^verbatim>\<open>now % window\<close> is exact.
\<close>

definition slidingWindow_script ::
  "string \<Rightarrow> string \<Rightarrow> int \<Rightarrow> int \<Rightarrow> int \<Rightarrow> database \<Rightarrow> error + (int \<times> database)" where
  "slidingWindow_script currentKey previousKey tokens now window d =
     (case call_GET now currentKey d of
        Inl e \<Rightarrow> Inl e
      | Inr g1 \<Rightarrow>
          (case call_GET now previousKey d of
             Inl e \<Rightarrow> Inl e
           | Inr g2 \<Rightarrow>
               (let requestsInCurrentWindow = (case g1 of None \<Rightarrow> 0 | Some c \<Rightarrow> c);
                    requestsInPreviousWindow = (case g2 of None \<Rightarrow> 0 | Some c \<Rightarrow> c);
                    percentageInCurrent = double (of_int (now mod window) / of_int window)
                in if double (double (of_int requestsInPreviousWindow
                                        * double (1 - percentageInCurrent))
                              + of_int requestsInCurrentWindow) \<ge> of_int tokens
                   then Inr (0, d)
                   else (case call_INCR now currentKey d of
                           Inl e \<Rightarrow> Inl e
                         | Inr (newValue, d1) \<Rightarrow>
                             Inr (tokens - newValue,
                                  if newValue = 1
                                  then call_PEXPIRE now currentKey (window * 2 + 1000) d1
                                  else d1)))))"

definition slidingWindow :: "int \<Rightarrow> int \<Rightarrow> Ratelimiter" where
  "slidingWindow tokens windowSize identifier now s =
     (let currentWindow = now div windowSize;
          currentKey = join_number identifier currentWindow;
          previousWindow = currentWindow - windowSize;
          previousKey = join_number identifier previousWindow
      in case redis_eval [currentKey, previousKey] [tokens, now, windowSize]
                (slidingWindow_script currentKey previousKey tokens now windowSize) s of
           (Inl e, s') \<Rightarrow> (Inl e, s')
         | (Inr remaining', s') \<Rightarrow>
             (Inr \<lparr>success = remaining' > 0,
                   limit = tokens,
                   remaining = remaining',
                   reset = (currentWindow + 1) * windowSize\<rparr>, s'))"

subsubsection \<open>Token bucket\<close>

text \<open>The script returns the pair \<open>(remaining, reset)\<close>.\<close>

definition tokenBucket_script ::
  "string \<Rightarrow> int \<Rightarrow> int \<Rightarrow> int \<Rightarrow> int \<Rightarrow> database \<Rightarrow> error + ((int \<times> int) \<times> database)" where
  "tokenBucket_script key maxTokens interval refillRate now d =
     (case call_HMGET now key d of
        Inl e \<Rightarrow> Inl e
      | Inr None \<Rightarrow>
          (let remaining = maxTokens - 1
           in case call_HMSET now key now remaining d of
                Inl e \<Rightarrow> Inl e
              | Inr d1 \<Rightarrow> Inr ((remaining, now + interval), call_PEXPIRE now key interval d1))
      | Inr (Some (updatedAt, tokens)) \<Rightarrow>
          if now \<ge> updatedAt + interval
          then (let remaining = min maxTokens (tokens + refillRate) - 1
                in case call_HMSET now key now remaining d of
                     Inl e \<Rightarrow> Inl e
                   | Inr d1 \<Rightarrow> Inr ((remaining, now + interval), d1))
          else if tokens > 0
          then (let remaining = tokens - 1
                in case call_HMSET now key now remaining d of
                     Inl e \<Rightarrow> Inl e
                   | Inr d1 \<Rightarrow> Inr ((remaining, updatedAt + interval), d1))
          else Inr ((0, updatedAt + interval), d))"

definition tokenBucket :: "int \<Rightarrow> int \<Rightarrow> int \<Rightarrow> Ratelimiter" where
  "tokenBucket refillRate intervalDuration maxTokens identifier now s =
     (let key = join_number identifier (now div intervalDuration)
      in case redis_eval [key] [maxTokens, intervalDuration, refillRate, now]
                (tokenBucket_script key maxTokens intervalDuration refillRate now) s of
           (Inl e, s') \<Rightarrow> (Inl e, s')
         | (Inr (remaining', reset'), s') \<Rightarrow>
             (Inr \<lparr>success = remaining' > 0,
                   limit = maxTokens,
                   remaining = remaining',
                   reset = reset'\<rparr>, s'))"

subsubsection \<open>Eventual write\<close>

text \<open>
  The increment is sent without being awaited, and the expiry follows when the increment
  answers \<open>1\<close>; a failure of either is not seen by the caller. The model lets both
  complete before the next request reaches the store. The first argument is the unit of
  the client's \<^verbatim>\<open>expire\<close>, which receives the window length in milliseconds.
\<close>

definition eventualWrite_background :: "int \<Rightarrow> int \<Rightarrow> string \<Rightarrow> int \<Rightarrow> redis \<Rightarrow> redis" where
  "eventualWrite_background unit now key windowDuration s =
     (case redis_incr now key s of
        (Inl e, s') \<Rightarrow> s'
      | (Inr res, s') \<Rightarrow> if res = 1 then redis_expire unit now key windowDuration s' else s')"

definition eventualWrite :: "int \<Rightarrow> int \<Rightarrow> int \<Rightarrow> Ratelimiter" where
  "eventualWrite unit tokens windowDuration identifier now s =
     (let bucket = now div windowDuration;
          key = join_number identifier bucket
      in case redis_get now key s of
           (Inl e, s') \<Rightarrow> (Inl e, s')
         | (Inr g, s') \<Rightarrow>
             (let usedTokensAfterUpdate = (case g of None \<Rightarrow> 1 | Some v \<Rightarrow> v)
              in (Inr \<lparr>success = usedTokensAfterUpdate \<le> tokens,
                        limit = tokens,
                        remaining = tokens - usedTokensAfterUpdate,
                        reset = (bucket + 1) * windowDuration\<rparr>,
                  eventualWrite_background unit now key windowDuration s')))"

text \<open>
  The closed set of algorithms, with the period (window or interval) of each. The eventual
  write carries the unit of the client's \<^verbatim>\<open>expire\<close> as its first component.
\<close>

datatype algorithm =
    EventualWrite int int int
  | FixedWindow int int
  | SlidingWindow int int
  | TokenBucket int int int

fun limiter_of :: "algorithm \<Rightarrow> Ratelimiter" where
  "limiter_of (EventualWrite unit tokens window) = eventualWrite unit tokens window"
| "limiter_of (FixedWindow tokens window) = fixedWindow tokens window"
| "limiter_of (SlidingWindow tokens window) = slidingWindow tokens window"
| "limiter_of (TokenBucket refillRate interval maxTokens) = tokenBucket refillRate interval maxTokens"

fun period :: "algorithm \<Rightarrow> int" where
  "period (EventualWrite unit tokens window) = window"
| "period (FixedWindow tokens window) = window"
| "period (SlidingWindow tokens window) = window"
| "period (TokenBucket refillRate interval maxTokens) = interval"

subsection \<open>The class \<^verbatim>\<open>Ratelimit\<close>\<close>

record Ratelimit =
  limiter :: Ratelimiter
  prefix :: string

definition new_Ratelimit :: "Ratelimiter \<Rightarrow> string option \<Rightarrow> Ratelimit" where
  "new_Ratelimit l p =
     \<lparr>limiter = l, prefix = (case p of None \<Rightarrow> ''@upstash/ratelimit'' | Some x \<Rightarrow> x)\<rparr>"

definition Ratelimit_limit :: "Ratelimit \<Rightarrow> Ratelimiter" where
  "Ratelimit_limit this identifier now s =
     (let key = join (prefix this) identifier in limiter this key now s)"

text \<open>
  \<^verbatim>\<open>blockUntilReady\<close> polls in a loop with a timer between the attempts. The world is
  the store and the clock; a request to the store takes no time, and the timer fires
  exactly after the delay it was given (after one millisecond when the delay is less than
  that). The loop may run for ever, so the model counts the attempts down from \<open>fuel\<close>:
  \<open>None\<close> means that the attempts allowed were used up before the loop ended.
\<close>

record world =
  store :: redis
  clock :: int

definition setTimeout :: "int \<Rightarrow> world \<Rightarrow> world" where
  "setTimeout wait w = w\<lparr>clock := clock w + max 1 wait\<rparr>"

fun blockUntilReady_loop ::
  "nat \<Rightarrow> Ratelimit \<Rightarrow> string \<Rightarrow> int \<Rightarrow> world \<Rightarrow> (error + RatelimitResponse) option \<times> world" where
  "blockUntilReady_loop 0 this identifier deadline w = (None, w)"
| "blockUntilReady_loop (Suc fuel) this identifier deadline w =
     (case Ratelimit_limit this identifier (clock w) (store w) of
        (Inl e, s') \<Rightarrow> (Some (Inl e), w\<lparr>store := s'\<rparr>)
      | (Inr res, s') \<Rightarrow>
          (let w1 = w\<lparr>store := s'\<rparr>
           in if success res then (Some (Inr res), w1)
              else if reset res = 0 then (Some (Inl ThisShouldNotHappen), w1)
              else (let wait = min (reset res) deadline - clock w1;
                        w2 = setTimeout wait w1
                    in if clock w2 > deadline then (Some (Inr res), w2)
                       else blockUntilReady_loop fuel this identifier deadline w2)))"

definition blockUntilReady ::
  "nat \<Rightarrow> Ratelimit \<Rightarrow> string \<Rightarrow> int \<Rightarrow> world \<Rightarrow> (error + RatelimitResponse) option \<times> world" where
  "blockUntilReady fuel this identifier timeout w =
     (if timeout \<le> 0 then (Some (Inl TimeoutMustBePositive), w)
      else (let deadline = clock w + timeout
            in blockUntilReady_loop fuel this identifier deadline w))"

subsection \<open>Sequences of requests\<close>

text \<open>One caller sending requests one after the other, at the times of the list.\<close>

fun requests :: "Ratelimiter \<Rightarrow> string \<Rightarrow> int list \<Rightarrow> redis \<Rightarrow> (error + RatelimitResponse) list \<times> redis" where
  "requests l identifier [] s = ([], s)"
| "requests l identifier (now # later) s =
     (case l identifier now s of
        (r, s') \<Rightarrow> (case requests l identifier later s' of (rs, s'') \<Rightarrow> (r # rs, s'')))"

text \<open>The store before any request has reached it.\<close>

definition empty_redis :: redis where
  "empty_redis = \<lparr>db = Map.empty, calls = []\<rparr>"

section \<open>Properties of the model\<close>

subsection \<open>Doubles\<close>

text \<open>
  What \<open>double\<close> computes: for \<open>x > 0\<close> the result has a significand of 53 bits at the
  exponent of \<open>x\<close> and lies within half a unit of the last place of \<open>x\<close>; an integer
  below \<open>2^53\<close> is a double, so the counters, the quota and the times enter the script's
  arithmetic unchanged. A few values, as every implementation of IEEE 754 gives them.
\<close>

lemma double_examples:
  "double (9 / 10) = 8106479329266893 / 9007199254740992"
  "double (1 / 10) = 3602879701896397 / 36028797018963968"
  "double (1 / 3) = 6004799503160661 / 18014398509481984"
  "double 9007199254740993 = 9007199254740992"
  "double 9007199254740995 = 9007199254740996"
  "double (- 9 / 10) = - 8106479329266893 / 9007199254740992"
  by code_simp+

lemma pow2_pos: "0 < pow2 e"
  by (simp add: pow2_def)

lemma pow2_nat: "0 \<le> e \<Longrightarrow> pow2 e = 2 ^ nat e"
  by (simp add: pow2_def)

lemma pow2_neg: "0 \<le> k \<Longrightarrow> pow2 (- k) = 1 / 2 ^ nat k"
  by (cases "k = 0") (simp_all add: pow2_def)

lemma pow_le_of_int: "(2::int) ^ a \<le> n \<Longrightarrow> (2::rat) ^ a \<le> of_int n"
proof -
  assume "(2::int) ^ a \<le> n"
  then have "(of_int (2 ^ a) :: rat) \<le> of_int n" by (simp only: of_int_le_iff)
  then show ?thesis by simp
qed

lemma of_int_le_pow: "n \<le> (2::int) ^ a \<Longrightarrow> (of_int n :: rat) \<le> 2 ^ a"
proof -
  assume "n \<le> (2::int) ^ a"
  then have "(of_int n :: rat) \<le> of_int (2 ^ a)" by (simp only: of_int_le_iff)
  then show ?thesis by simp
qed

lemma exponent_bounds:
  assumes "0 < x"
  shows "pow2 (exponent x) \<le> x \<and> x < pow2 (exponent x + 1)"
proof (cases "1 \<le> x")
  case True
  define n where "n = \<lfloor>x\<rfloor>"
  have n: "1 \<le> n" using True by (simp add: n_def le_floor_iff)
  then have b: "2 ^ nat (bitlen n - 1) \<le> n" "n < 2 ^ nat (bitlen n)"
    using bitlen_bounds [of n] by simp_all
  have k: "1 \<le> bitlen n" using n by (simp add: bitlen_alt_def)
  have e: "exponent x = bitlen n - 1" using True by (simp add: exponent_def n_def)
  have "(2::rat) ^ nat (bitlen n - 1) \<le> of_int n"
    using b(1) by (rule pow_le_of_int)
  moreover have "of_int n \<le> x" by (simp add: n_def)
  ultimately have "(2::rat) ^ nat (bitlen n - 1) \<le> x" by (rule order_trans)
  then have lo: "pow2 (exponent x) \<le> x"
    using k by (simp add: e pow2_nat)
  have "n + 1 \<le> 2 ^ nat (bitlen n)" using b(2) by simp
  then have "(of_int (n + 1) :: rat) \<le> 2 ^ nat (bitlen n)"
    by (rule of_int_le_pow)
  moreover have "x < of_int (n + 1)" using floor_correct [of x] by (simp add: n_def)
  ultimately have "x < 2 ^ nat (bitlen n)" by (rule less_le_trans [rotated])
  then have hi: "x < pow2 (exponent x + 1)"
    using k by (simp add: e pow2_nat)
  from lo hi show ?thesis ..
next
  case False
  define y where "y = 1 / x"
  define m where "m = \<lceil>y\<rceil>"
  define k where "k = bitlen (m - 1)"
  have y: "1 < y" using assms False by (simp add: y_def)
  have x: "x = 1 / y" using assms by (simp add: y_def)
  have m: "2 \<le> m" using y by (simp add: m_def le_ceiling_iff)
  then have b: "2 ^ nat (k - 1) \<le> m - 1" "m - 1 < 2 ^ nat k"
    using bitlen_bounds [of "m - 1"] by (simp_all add: k_def)
  have k1: "1 \<le> k" using m by (simp add: k_def bitlen_alt_def)
  have e: "exponent x = - k" using False by (simp add: exponent_def k_def m_def y_def)
  have "m \<le> 2 ^ nat k" using b(2) by simp
  then have "(of_int m :: rat) \<le> 2 ^ nat k" by (rule of_int_le_pow)
  moreover have "y \<le> of_int m" by (simp add: m_def)
  ultimately have "y \<le> 2 ^ nat k" by (rule order_trans [rotated])
  then have "1 / 2 ^ nat k \<le> 1 / y" using y by (simp add: frac_le)
  then have lo: "pow2 (exponent x) \<le> x"
    unfolding e using k1 by (simp add: x pow2_neg)
  have "(2::rat) ^ nat (k - 1) \<le> of_int (m - 1)"
    using b(1) by (rule pow_le_of_int)
  moreover have "of_int (m - 1) < y"
    unfolding m_def using ceiling_correct [of y] by simp
  ultimately have "2 ^ nat (k - 1) < y" by (rule le_less_trans)
  then have "1 / y < 1 / 2 ^ nat (k - 1)" by (simp add: frac_less2)
  moreover have "pow2 (exponent x + 1) = 1 / 2 ^ nat (k - 1)"
    using k1 pow2_neg [of "k - 1"] by (simp add: e)
  ultimately have hi: "x < pow2 (exponent x + 1)" by (simp only: x [symmetric])
  from lo hi show ?thesis ..
qed


lemma pow2_powi: "pow2 e = 2 powi e"
  by (simp add: pow2_def power_int_def field_simps)

lemma pow2_add: "pow2 (a + b) = pow2 a * pow2 b"
  by (simp add: pow2_powi power_int_add)

lemma pow2_diff: "pow2 (a - b) = pow2 a / pow2 b"
  by (simp add: pow2_powi power_int_diff)

lemma pow2_less_imp: "pow2 a \<le> x \<Longrightarrow> x < pow2 b \<Longrightarrow> a < b"
proof (rule ccontr)
  assume 1: "pow2 a \<le> x" and 2: "x < pow2 b" and "\<not> a < b"
  then have "b \<le> a" by simp
  then have "pow2 b \<le> pow2 a"
    unfolding pow2_powi by (intro power_int_increasing) simp_all
  with 1 2 show False by simp
qed

lemma round_ties_even_floor: "\<lfloor>x\<rfloor> \<le> round_ties_even x \<and> round_ties_even x \<le> \<lfloor>x\<rfloor> + 1"
  by (simp add: round_ties_even_def Let_def)

lemma round_ties_even_near: "\<bar>of_int (round_ties_even x) - x\<bar> \<le> 1 / 2"
proof -
  define r where "r = x - of_int \<lfloor>x\<rfloor>"
  have r: "0 \<le> r" "r < 1"
    using floor_correct [of x] by (simp_all add: r_def)
  consider "r < 1 / 2" | "1 / 2 < r" | "r = 1 / 2" "even \<lfloor>x\<rfloor>" | "r = 1 / 2" "odd \<lfloor>x\<rfloor>"
    by fastforce
  then show ?thesis
  proof cases
    case 1
    then have "(of_int (round_ties_even x) :: rat) = of_int \<lfloor>x\<rfloor>"
      by (simp add: round_ties_even_def Let_def r_def)
    with 1 r show ?thesis unfolding r_def by linarith
  next
    case 2
    then have "(of_int (round_ties_even x) :: rat) = of_int \<lfloor>x\<rfloor> + 1"
      by (simp add: round_ties_even_def Let_def r_def)
    with 2 r show ?thesis unfolding r_def by linarith
  next
    case 3
    then have "(of_int (round_ties_even x) :: rat) = of_int \<lfloor>x\<rfloor>"
      by (simp add: round_ties_even_def Let_def r_def)
    with 3 r show ?thesis unfolding r_def by linarith
  next
    case 4
    then have "(of_int (round_ties_even x) :: rat) = of_int \<lfloor>x\<rfloor> + 1"
      by (simp add: round_ties_even_def Let_def r_def)
    with 4 r show ?thesis unfolding r_def by linarith
  qed
qed

lemma round_ties_even_of_int: "round_ties_even (of_int n) = n"
  by (simp add: round_ties_even_def)

lemma double_near:
  assumes "x \<noteq> 0"
  shows "\<bar>double x - x\<bar> \<le> pow2 (exponent \<bar>x\<bar> - 53)"
proof -
  define p where "p = pow2 (exponent \<bar>x\<bar> - 52)"
  have p: "0 < p" by (simp add: p_def pow2_pos)
  have d: "double x = of_int (round_ties_even (x / p)) * p"
    using assms by (simp add: double_def p_def Let_def)
  have "double x - x = (of_int (round_ties_even (x / p)) - x / p) * p"
    using p by (simp add: d field_simps)
  then have "\<bar>double x - x\<bar> = \<bar>of_int (round_ties_even (x / p)) - x / p\<bar> * p"
    using p by (simp add: abs_mult)
  also have "\<dots> \<le> 1 / 2 * p"
    using round_ties_even_near [of "x / p"] p by (intro mult_right_mono) simp_all
  also have "1 / 2 * p = pow2 (exponent \<bar>x\<bar> - 53)"
    using pow2_diff [of "exponent \<bar>x\<bar> - 52" 1] by (simp add: p_def pow2_def)
  finally show ?thesis .
qed

lemma double_significand:
  assumes "0 < x"
  shows "\<exists>m. double x = of_int m * pow2 (exponent x - 52) \<and> 2 ^ 52 \<le> m \<and> m \<le> 2 ^ 53"
proof -
  define p where "p = pow2 (exponent x - 52)"
  define y where "y = x / p"
  have p: "0 < p" by (simp add: p_def pow2_pos)
  have d: "double x = of_int (round_ties_even y) * p"
    using assms by (simp add: double_def p_def y_def Let_def)
  from exponent_bounds [OF assms]
  have lo: "pow2 (exponent x) \<le> x" and hi: "x < pow2 (exponent x + 1)" by simp_all
  have "pow2 (exponent x) / p = pow2 52"
    using pow2_diff [of "exponent x" "exponent x - 52"] by (simp add: p_def)
  moreover have "pow2 (exponent x) / p \<le> y"
    using lo p by (simp add: y_def divide_right_mono)
  ultimately have ylo: "2 ^ 52 \<le> y" by (simp add: pow2_def)
  have "pow2 (exponent x + 1) / p = pow2 53"
    using pow2_diff [of "exponent x + 1" "exponent x - 52"] by (simp add: p_def)
  moreover have "y < pow2 (exponent x + 1) / p"
    using hi p by (simp add: y_def divide_strict_right_mono)
  ultimately have yhi: "y < 2 ^ 53" by (simp add: pow2_def)
  have "(of_int (2 ^ 52) :: rat) \<le> y" using ylo by simp
  then have f1: "2 ^ 52 \<le> \<lfloor>y\<rfloor>" by (simp only: le_floor_iff)
  have "y < (of_int (2 ^ 53) :: rat)" using yhi by simp
  then have f2: "\<lfloor>y\<rfloor> < 2 ^ 53" by (simp only: floor_less_iff)
  from round_ties_even_floor [of y] f1 f2
  have "2 ^ 52 \<le> round_ties_even y \<and> round_ties_even y \<le> 2 ^ 53" by linarith
  with d show ?thesis unfolding p_def by blast
qed

lemma double_of_int:
  assumes "0 \<le> n" and "n < 2 ^ 53"
  shows "double (of_int n) = of_int n"
proof (cases "n = 0")
  case True
  then show ?thesis by (simp add: double_def)
next
  case False
  with assms have pos: "0 < (of_int n :: rat)" by simp
  define e where "e = exponent (of_int n) - 52"
  from exponent_bounds [OF pos] have "pow2 (exponent (of_int n)) \<le> of_int n" by simp
  moreover have "(of_int n :: rat) < pow2 53"
    using assms(2) of_int_less_iff [of n "2 ^ 53", where ?'a = rat] by (simp add: pow2_def)
  ultimately have "exponent (of_int n) < 53" by (rule pow2_less_imp)
  then have e: "e \<le> 0" by (simp add: e_def)
  then have p: "pow2 e = 1 / 2 ^ nat (- e)"
    using pow2_neg [of "- e"] by simp
  have "of_int n / pow2 e = (of_int (n * 2 ^ nat (- e)) :: rat)"
    by (simp add: p)
  then have "round_ties_even (of_int n / pow2 e) = n * 2 ^ nat (- e)"
    by (simp only: round_ties_even_of_int)
  then have "double (of_int n) = of_int (n * 2 ^ nat (- e)) * pow2 e"
    using pos by (simp add: double_def e_def abs_if Let_def)
  also have "\<dots> = of_int n" by (simp add: p)
  finally show ?thesis .
qed

subsection \<open>Buckets\<close>

text \<open>
  A time lies in the bucket that its index names: between the start of the bucket and the
  start of the next one.
\<close>

lemma bucket_bounds:
  fixes now W :: int
  assumes "0 < W"
  shows "(now div W) * W \<le> now" and "now < (now div W + 1) * W"
proof -
  have a: "(now div W) * W + now mod W = now" by simp
  have b: "0 \<le> now mod W" "now mod W < W" using assms by simp_all
  have c: "(now div W + 1) * W = (now div W) * W + W" by (simp add: algebra_simps)
  show "(now div W) * W \<le> now" using a b by linarith
  show "now < (now div W + 1) * W" using a b c by linarith
qed

subsection \<open>Keys\<close>

text \<open>
  Decimal numerals contain no colon and determine their number, so a key can be split
  again at its last colon.
\<close>

lemma of_char_digit_char: "d < 10 \<Longrightarrow> of_char (digit_char d) = 48 + d"
  by (simp add: digit_char_def)

lemma digit_value_digit_char: "d < 10 \<Longrightarrow> digit_value (digit_char d) = d"
  by (simp add: digit_value_def of_char_digit_char)

lemma digit_char_not_colon: "d < 10 \<Longrightarrow> digit_char d \<noteq> CHR '':''"
proof
  assume d: "d < 10" and "digit_char d = CHR '':''"
  then have "(of_char (digit_char d) :: nat) = of_char (CHR '':'')" by simp
  with d show False by (simp add: of_char_digit_char)
qed

lemma digit_char_not_minus: "d < 10 \<Longrightarrow> digit_char d \<noteq> CHR ''-''"
proof
  assume d: "d < 10" and "digit_char d = CHR ''-''"
  then have "(of_char (digit_char d) :: nat) = of_char (CHR ''-'')" by simp
  with d show False by (simp add: of_char_digit_char)
qed

lemma digits_value_snoc: "digits_value (cs @ [c]) = 10 * digits_value cs + digit_value c"
  by (simp add: digits_value_def)

lemma digits_value_digits: "digits_value (digits n) = n"
proof (induction n rule: digits.induct)
  case (1 n)
  show ?case
  proof (cases "n < 10")
    case True
    then show ?thesis
      by (subst digits.simps) (simp add: digits_value_def digit_value_digit_char)
  next
    case False
    then have "digits_value (digits (n div 10)) = n div 10"
      using 1 by simp
    with False show ?thesis
      by (subst digits.simps) (simp add: digits_value_snoc digit_value_digit_char)
  qed
qed

lemma digits_inj: "digits m = digits n \<Longrightarrow> m = n"
proof -
  assume "digits m = digits n"
  then have "digits_value (digits m) = digits_value (digits n)" by (rule arg_cong)
  then show "m = n" by (simp only: digits_value_digits)
qed

lemma colon_notin_digits: "CHR '':'' \<notin> set (digits n)"
proof (induction n rule: digits.induct)
  case (1 n)
  show ?case
  proof (cases "n < 10")
    case True
    then show ?thesis
      using digit_char_not_colon [of n] by (subst digits.simps) auto
  next
    case False
    then have "CHR '':'' \<notin> set (digits (n div 10))"
      using 1 by simp
    moreover have "digit_char (n mod 10) \<noteq> CHR '':''"
      by (rule digit_char_not_colon) simp
    ultimately show ?thesis
      using False by (subst digits.simps) auto
  qed
qed

lemma minus_not_hd_digits: "digits n \<noteq> CHR ''-'' # cs"
proof (induction n arbitrary: cs rule: digits.induct)
  case (1 n)
  show ?case
  proof (cases "n < 10")
    case True
    then show ?thesis
      using digit_char_not_minus [of n] by (subst digits.simps) auto
  next
    case False
    have "digits (n div 10) @ [digit_char (n mod 10)] \<noteq> CHR ''-'' # cs"
    proof
      assume eq: "digits (n div 10) @ [digit_char (n mod 10)] = CHR ''-'' # cs"
      show False
      proof (cases "digits (n div 10)")
        case Nil
        then show False by (subst (asm) digits.simps) (simp split: if_splits)
      next
        case (Cons c cs')
        with eq have "digits (n div 10) = CHR ''-'' # cs'" by simp
        with 1 [OF False, of cs'] show False by blast
      qed
    qed
    with False show ?thesis by (subst digits.simps) simp
  qed
qed

lemma colon_notin_number_toString: "CHR '':'' \<notin> set (number_toString i)"
  by (simp add: number_toString_def colon_notin_digits)

lemma number_toString_inj: "number_toString i = number_toString j \<Longrightarrow> i = j"
proof -
  assume eq: "number_toString i = number_toString j"
  consider "i < 0" "j < 0" | "i < 0" "\<not> j < 0" | "\<not> i < 0" "j < 0" | "\<not> i < 0" "\<not> j < 0"
    by blast
  then show "i = j"
  proof cases
    case 1
    with eq have "digits (nat (- i)) = digits (nat (- j))" by (simp add: number_toString_def)
    then have "nat (- i) = nat (- j)" by (rule digits_inj)
    with 1 show ?thesis by simp
  next
    case 2
    with eq have "digits (nat j) = CHR ''-'' # digits (nat (- i))" by (simp add: number_toString_def)
    then show ?thesis by (simp add: minus_not_hd_digits)
  next
    case 3
    with eq have "digits (nat i) = CHR ''-'' # digits (nat (- j))" by (simp add: number_toString_def)
    then show ?thesis by (simp add: minus_not_hd_digits)
  next
    case 4
    with eq have "digits (nat i) = digits (nat j)" by (simp add: number_toString_def)
    then have "nat i = nat j" by (rule digits_inj)
    with 4 show ?thesis by simp
  qed
qed

lemma append_colon_eq:
  assumes "CHR '':'' \<notin> set b" and "CHR '':'' \<notin> set b'"
    and "a @ CHR '':'' # b = a' @ CHR '':'' # b'"
  shows "a = a' \<and> b = b'"
  using assms
proof (induction a arbitrary: a')
  case Nil
  then show ?case by (cases a') auto
next
  case (Cons x a)
  show ?case
  proof (cases a')
    case Nil
    with Cons.prems show ?thesis by auto
  next
    case (Cons y a'')
    with Cons.prems Cons.IH [of a''] show ?thesis by auto
  qed
qed

lemma join_eq_iff:
  assumes "CHR '':'' \<notin> set b" and "CHR '':'' \<notin> set b'"
  shows "join a b = join a' b' \<longleftrightarrow> a = a' \<and> b = b'"
  using append_colon_eq [OF assms, of a a'] by (auto simp: join_def)

lemma join_number_eq_iff:
  "join_number a i = join_number a' j \<longleftrightarrow> a = a' \<and> i = j"
  using join_eq_iff [OF colon_notin_number_toString colon_notin_number_toString, of a i a' j]
        number_toString_inj [of i j]
  by (auto simp: join_number_def)

subsection \<open>Commands of the store\<close>

text \<open>
  What each command does to a key that is missing (or expired) and to a key that holds a
  value of the right kind.
\<close>

lemma lookup_live:
  "lookup d now k = Some e \<Longrightarrow> d k = Some e \<and> (\<forall>t. expireAt e = Some t \<longrightarrow> now < t)"
  by (auto simp: lookup_def split: option.splits if_splits)

lemma lookup_update_other: "k' \<noteq> k \<Longrightarrow> lookup (d(k := x)) now k' = lookup d now k'"
  by (simp add: lookup_def)

lemma lookup_update_fresh:
  "lookup (d(k \<mapsto> \<lparr>val = v, expireAt = None\<rparr>)) now k = Some \<lparr>val = v, expireAt = None\<rparr>"
  by (simp add: lookup_def)

lemma lookup_update_same:
  "lookup d now k = Some e \<Longrightarrow> expireAt e' = expireAt e \<Longrightarrow> lookup (d(k \<mapsto> e')) now k = Some e'"
  by (auto simp: lookup_def split: option.splits if_splits)

lemma call_GET_absent: "lookup d now k = None \<Longrightarrow> call_GET now k d = Inr None"
  by (simp add: call_GET_def)

lemma call_GET_counter:
  "lookup d now k = Some \<lparr>val = Counter v, expireAt = x\<rparr> \<Longrightarrow> call_GET now k d = Inr (Some v)"
  by (simp add: call_GET_def)

lemma call_GET_cases:
  assumes "call_GET now k d = Inr g"
  shows "(g = None \<and> lookup d now k = None)
       \<or> (\<exists>v. g = Some v \<and> lookup d now k = Some \<lparr>val = Counter v, expireAt = (case lookup d now k of None \<Rightarrow> None | Some e \<Rightarrow> expireAt e)\<rparr>)"
proof (cases "lookup d now k")
  case None
  with assms show ?thesis by (simp add: call_GET_def)
next
  case (Some e)
  show ?thesis
  proof (cases "val e")
    case (Counter v)
    have "e = \<lparr>val = val e, expireAt = expireAt e\<rparr>" by simp
    with Counter have "e = \<lparr>val = Counter v, expireAt = expireAt e\<rparr>" by simp
    with Some Counter assms show ?thesis by (auto simp: call_GET_def)
  next
    case (Bucket u t)
    with Some assms show ?thesis by (simp add: call_GET_def)
  qed
qed

lemma call_INCR_absent:
  "lookup d now k = None \<Longrightarrow>
   call_INCR now k d = Inr (1, d(k \<mapsto> \<lparr>val = Counter 1, expireAt = None\<rparr>))"
  by (simp add: call_INCR_def)

lemma call_INCR_counter:
  "lookup d now k = Some \<lparr>val = Counter v, expireAt = x\<rparr> \<Longrightarrow>
   call_INCR now k d = Inr (v + 1, d(k \<mapsto> \<lparr>val = Counter (v + 1), expireAt = x\<rparr>))"
  by (simp add: call_INCR_def)

lemma call_PEXPIRE_live:
  "lookup d now k = Some e \<Longrightarrow> 0 < ttl \<Longrightarrow>
   call_PEXPIRE now k ttl d = d(k \<mapsto> e\<lparr>expireAt := Some (now + ttl)\<rparr>)"
  by (simp add: call_PEXPIRE_def)

lemma call_PEXPIRE_updated:
  assumes "lookup d now k = Some e" and "expireAt e' = expireAt e" and "0 < ttl"
  shows "call_PEXPIRE now k ttl (d(k \<mapsto> e')) = d(k \<mapsto> e'\<lparr>expireAt := Some (now + ttl)\<rparr>)"
  using call_PEXPIRE_live [OF lookup_update_same [OF assms(1,2)] assms(3)] by simp

lemma INCR_PEXPIRE:
  assumes ttl: "0 < ttl"
    and g: "call_GET now k d = Inr g"
    and c: "c = (case g of None \<Rightarrow> 1 | Some v \<Rightarrow> v + 1)"
  shows "\<exists>d1. call_INCR now k d = Inr (c, d1) \<and>
              (if c = 1 then call_PEXPIRE now k ttl d1 else d1)
                = d(k \<mapsto> \<lparr>val = Counter c,
                           expireAt = (if c = 1 then Some (now + ttl)
                                       else (case lookup d now k of None \<Rightarrow> None | Some e \<Rightarrow> expireAt e))\<rparr>)"
proof -
  from call_GET_cases [OF g] show ?thesis
  proof (elim disjE conjE exE)
    assume gn: "g = None" and l: "lookup d now k = None"
    show ?thesis
      using c gn ttl
      by (simp add: call_INCR_absent [OF l] call_PEXPIRE_live [OF lookup_update_fresh])
  next
    fix v
    let ?x = "case lookup d now k of None \<Rightarrow> None | Some e \<Rightarrow> expireAt e"
    assume gv: "g = Some v" and l: "lookup d now k = Some \<lparr>val = Counter v, expireAt = ?x\<rparr>"
    have x: "(case lookup d now k of None \<Rightarrow> None | Some e \<Rightarrow> expireAt e) = ?x" ..
    have i: "call_INCR now k d = Inr (v + 1, d(k \<mapsto> \<lparr>val = Counter (v + 1), expireAt = ?x\<rparr>))"
      by (rule call_INCR_counter [OF l])
    have p: "call_PEXPIRE now k ttl (d(k \<mapsto> \<lparr>val = Counter (v + 1), expireAt = ?x\<rparr>))
               = d(k \<mapsto> \<lparr>val = Counter (v + 1), expireAt = Some (now + ttl)\<rparr>)"
      using call_PEXPIRE_updated [OF l, of "\<lparr>val = Counter (v + 1), expireAt = ?x\<rparr>" ttl] ttl
      by simp
    show ?thesis
      unfolding c gv i using p by auto
  qed
qed

lemma call_HMGET_absent: "lookup d now k = None \<Longrightarrow> call_HMGET now k d = Inr None"
  by (simp add: call_HMGET_def)

lemma call_HMGET_bucket:
  "lookup d now k = Some \<lparr>val = Bucket u t, expireAt = x\<rparr> \<Longrightarrow> call_HMGET now k d = Inr (Some (u, t))"
  by (simp add: call_HMGET_def)

lemma call_HMSET_absent:
  "lookup d now k = None \<Longrightarrow>
   call_HMSET now k u t d = Inr (d(k \<mapsto> \<lparr>val = Bucket u t, expireAt = None\<rparr>))"
  by (simp add: call_HMSET_def)

lemma call_HMSET_bucket:
  "lookup d now k = Some \<lparr>val = Bucket u' t', expireAt = x\<rparr> \<Longrightarrow>
   call_HMSET now k u t d = Inr (d(k \<mapsto> \<lparr>val = Bucket u t, expireAt = x\<rparr>))"
  by (simp add: call_HMSET_def)

lemma call_errors:
  "call_GET now k d = Inl e \<Longrightarrow> e = WrongType"
  "call_INCR now k d = Inl e \<Longrightarrow> e = WrongType"
  "call_HMGET now k d = Inl e \<Longrightarrow> e = WrongType"
  "call_HMSET now k u t d = Inl e \<Longrightarrow> e = WrongType"
  by (auto simp: call_GET_def call_INCR_def call_HMGET_def call_HMSET_def
           split: option.splits rvalue.splits)

lemma redis_eval_error:
  assumes "\<And>d e. body d = Inl e \<Longrightarrow> e = WrongType"
    and "redis_eval keys args body s = (Inl e, s')"
  shows "e = WrongType"
  using assms by (auto simp: redis_eval_def split: sum.splits prod.splits)

subsection \<open>One request\<close>

text \<open>
  Each algorithm on a store whose key holds a value of the kind the algorithm expects:
  the response and the store afterwards.
\<close>

lemma fixedWindow_call:
  assumes W: "0 < W"
    and g: "call_GET now (join_number identifier (now div W)) (db s) = Inr g"
    and c: "c = (case g of None \<Rightarrow> 1 | Some v \<Rightarrow> v + 1)"
  shows "fixedWindow tokens W identifier now s =
           (Inr \<lparr>success = c \<le> tokens, limit = tokens, remaining = tokens - c,
                 reset = (now div W + 1) * W\<rparr>,
            s\<lparr>db := (db s)(join_number identifier (now div W) \<mapsto>
                     \<lparr>val = Counter c,
                      expireAt = (if c = 1 then Some (now + W)
                                  else (case lookup (db s) now (join_number identifier (now div W)) of
                                          None \<Rightarrow> None | Some e \<Rightarrow> expireAt e))\<rparr>),
              calls := calls s @ [EVAL [join_number identifier (now div W)] [W]]\<rparr>)"
proof -
  from INCR_PEXPIRE [OF W g c] obtain d1 where
    i: "call_INCR now (join_number identifier (now div W)) (db s) = Inr (c, d1)" and
    p: "(if c = 1 then call_PEXPIRE now (join_number identifier (now div W)) W d1 else d1)
          = (db s)(join_number identifier (now div W) \<mapsto>
                     \<lparr>val = Counter c,
                      expireAt = (if c = 1 then Some (now + W)
                                  else (case lookup (db s) now (join_number identifier (now div W)) of
                                          None \<Rightarrow> None | Some e \<Rightarrow> expireAt e))\<rparr>)"
    by blast
  show ?thesis
    unfolding fixedWindow_def fixedWindow_script_def redis_eval_def log_def Let_def i
    using p by simp
qed

lemma slidingWindow_deny:
  assumes g1: "call_GET now (join_number identifier (now div W)) (db s) = Inr g1"
    and g2: "call_GET now (join_number identifier (now div W - W)) (db s) = Inr g2"
    and cur: "currentCount = (case g1 of None \<Rightarrow> 0 | Some v \<Rightarrow> v)"
    and prev: "previousCount = (case g2 of None \<Rightarrow> 0 | Some v \<Rightarrow> v)"
    and weight: "weight = double (of_int (now mod W) / of_int W)"
    and full: "double (double (of_int previousCount * double (1 - weight)) + of_int currentCount)
                 \<ge> of_int tokens"
  shows "slidingWindow tokens W identifier now s =
           (Inr \<lparr>success = False, limit = tokens, remaining = 0, reset = (now div W + 1) * W\<rparr>,
            s\<lparr>calls := calls s @ [EVAL [join_number identifier (now div W),
                                         join_number identifier (now div W - W)]
                                        [tokens, now, W]]\<rparr>)"
  using full
  unfolding slidingWindow_def slidingWindow_script_def redis_eval_def log_def Let_def g1 g2 cur prev weight
  by simp

lemma slidingWindow_admit:
  assumes W: "0 < W"
    and g1: "call_GET now (join_number identifier (now div W)) (db s) = Inr g1"
    and g2: "call_GET now (join_number identifier (now div W - W)) (db s) = Inr g2"
    and cur: "currentCount = (case g1 of None \<Rightarrow> 0 | Some v \<Rightarrow> v)"
    and prev: "previousCount = (case g2 of None \<Rightarrow> 0 | Some v \<Rightarrow> v)"
    and weight: "weight = double (of_int (now mod W) / of_int W)"
    and room: "\<not> double (double (of_int previousCount * double (1 - weight)) + of_int currentCount)
                   \<ge> of_int tokens"
    and new: "newValue = currentCount + 1"
  shows "slidingWindow tokens W identifier now s =
           (Inr \<lparr>success = tokens - newValue > 0, limit = tokens, remaining = tokens - newValue,
                 reset = (now div W + 1) * W\<rparr>,
            s\<lparr>db := (db s)(join_number identifier (now div W) \<mapsto>
                     \<lparr>val = Counter newValue,
                      expireAt = (if newValue = 1 then Some (now + (W * 2 + 1000))
                                  else (case lookup (db s) now (join_number identifier (now div W)) of
                                          None \<Rightarrow> None | Some e \<Rightarrow> expireAt e))\<rparr>),
              calls := calls s @ [EVAL [join_number identifier (now div W),
                                         join_number identifier (now div W - W)]
                                        [tokens, now, W]]\<rparr>)"
proof -
  have ttl: "0 < W * 2 + 1000" using W by simp
  have c: "newValue = (case g1 of None \<Rightarrow> 1 | Some v \<Rightarrow> v + 1)"
    using new cur by (simp split: option.splits)
  from INCR_PEXPIRE [OF ttl g1 c] obtain d1 where
    i: "call_INCR now (join_number identifier (now div W)) (db s) = Inr (newValue, d1)" and
    p: "(if newValue = 1 then call_PEXPIRE now (join_number identifier (now div W)) (W * 2 + 1000) d1 else d1)
          = (db s)(join_number identifier (now div W) \<mapsto>
                     \<lparr>val = Counter newValue,
                      expireAt = (if newValue = 1 then Some (now + (W * 2 + 1000))
                                  else (case lookup (db s) now (join_number identifier (now div W)) of
                                          None \<Rightarrow> None | Some e \<Rightarrow> expireAt e))\<rparr>)"
    by blast
  show ?thesis
    using room p
    unfolding slidingWindow_def slidingWindow_script_def redis_eval_def log_def Let_def g1 g2 i
      cur prev weight
    by simp
qed

lemma tokenBucket_fresh:
  assumes I: "0 < I" and l: "lookup (db s) now (join_number identifier (now div I)) = None"
  shows "tokenBucket R I M identifier now s =
           (Inr \<lparr>success = M - 1 > 0, limit = M, remaining = M - 1, reset = now + I\<rparr>,
            s\<lparr>db := (db s)(join_number identifier (now div I) \<mapsto>
                     \<lparr>val = Bucket now (M - 1), expireAt = Some (now + I)\<rparr>),
              calls := calls s @ [EVAL [join_number identifier (now div I)] [M, I, R, now]]\<rparr>)"
  using I
  by (simp add: tokenBucket_def tokenBucket_script_def redis_eval_def log_def Let_def
        call_HMGET_absent [OF l] call_HMSET_absent [OF l] call_PEXPIRE_live [OF lookup_update_fresh])

lemma tokenBucket_refill:
  assumes l: "lookup (db s) now (join_number identifier (now div I)) = Some \<lparr>val = Bucket updatedAt storedTokens, expireAt = x\<rparr>"
    and due: "now \<ge> updatedAt + I"
  shows "tokenBucket R I M identifier now s =
           (Inr \<lparr>success = min M (storedTokens + R) - 1 > 0, limit = M,
                 remaining = min M (storedTokens + R) - 1, reset = now + I\<rparr>,
            s\<lparr>db := (db s)(join_number identifier (now div I) \<mapsto>
                     \<lparr>val = Bucket now (min M (storedTokens + R) - 1), expireAt = x\<rparr>),
              calls := calls s @ [EVAL [join_number identifier (now div I)] [M, I, R, now]]\<rparr>)"
  using due
  by (simp add: tokenBucket_def tokenBucket_script_def redis_eval_def log_def Let_def
        call_HMGET_bucket [OF l] call_HMSET_bucket [OF l])

lemma tokenBucket_consume:
  assumes l: "lookup (db s) now (join_number identifier (now div I)) = Some \<lparr>val = Bucket updatedAt storedTokens, expireAt = x\<rparr>"
    and notdue: "\<not> now \<ge> updatedAt + I" and pos: "storedTokens > 0"
  shows "tokenBucket R I M identifier now s =
           (Inr \<lparr>success = storedTokens - 1 > 0, limit = M,
                 remaining = storedTokens - 1, reset = updatedAt + I\<rparr>,
            s\<lparr>db := (db s)(join_number identifier (now div I) \<mapsto>
                     \<lparr>val = Bucket now (storedTokens - 1), expireAt = x\<rparr>),
              calls := calls s @ [EVAL [join_number identifier (now div I)] [M, I, R, now]]\<rparr>)"
  using notdue pos
  by (simp add: tokenBucket_def tokenBucket_script_def redis_eval_def log_def Let_def
        call_HMGET_bucket [OF l] call_HMSET_bucket [OF l])

lemma tokenBucket_empty:
  assumes l: "lookup (db s) now (join_number identifier (now div I)) = Some \<lparr>val = Bucket updatedAt storedTokens, expireAt = x\<rparr>"
    and notdue: "\<not> now \<ge> updatedAt + I" and none: "\<not> storedTokens > 0"
  shows "tokenBucket R I M identifier now s =
           (Inr \<lparr>success = False, limit = M, remaining = 0, reset = updatedAt + I\<rparr>,
            s\<lparr>calls := calls s @ [EVAL [join_number identifier (now div I)] [M, I, R, now]]\<rparr>)"
  using notdue none
  by (simp add: tokenBucket_def tokenBucket_script_def redis_eval_def log_def Let_def
        call_HMGET_bucket [OF l])

lemma eventualWrite_call:
  assumes W: "0 < W" and u: "0 < unit"
    and g: "call_GET now (join_number identifier (now div W)) (db s) = Inr g"
    and v: "v = (case g of None \<Rightarrow> 1 | Some c \<Rightarrow> c)"
    and c: "c = (case g of None \<Rightarrow> 1 | Some c \<Rightarrow> c + 1)"
  shows "eventualWrite unit tokens W identifier now s =
           (Inr \<lparr>success = v \<le> tokens, limit = tokens, remaining = tokens - v,
                 reset = (now div W + 1) * W\<rparr>,
            s\<lparr>db := (db s)(join_number identifier (now div W) \<mapsto>
                     \<lparr>val = Counter c,
                      expireAt = (if c = 1 then Some (now + W * unit)
                                  else (case lookup (db s) now (join_number identifier (now div W)) of
                                          None \<Rightarrow> None | Some e \<Rightarrow> expireAt e))\<rparr>),
              calls := calls s @ [GET (join_number identifier (now div W)),
                                  INCR (join_number identifier (now div W))]
                             @ (if c = 1 then [EXPIRE (join_number identifier (now div W)) W] else [])\<rparr>)"
proof -
  have ttl: "0 < W * unit" using W u by simp
  from INCR_PEXPIRE [OF ttl g c] obtain d1 where
    i: "call_INCR now (join_number identifier (now div W)) (db s) = Inr (c, d1)" and
    p: "(if c = 1 then call_PEXPIRE now (join_number identifier (now div W)) (W * unit) d1 else d1)
          = (db s)(join_number identifier (now div W) \<mapsto>
                     \<lparr>val = Counter c,
                      expireAt = (if c = 1 then Some (now + W * unit)
                                  else (case lookup (db s) now (join_number identifier (now div W)) of
                                          None \<Rightarrow> None | Some e \<Rightarrow> expireAt e))\<rparr>)"
    by blast
  show ?thesis
    using p
    unfolding eventualWrite_def eventualWrite_background_def redis_get_def redis_incr_def
      redis_expire_def call_EXPIRE_def log_def Let_def g v
    by (auto simp: i)
qed

subsection \<open>The reset time and the errors of a request\<close>

lemma fixedWindow_reset:
  "fixedWindow tokens W identifier now s = (Inr r, s') \<Longrightarrow> reset r = (now div W + 1) * W"
  by (auto simp: fixedWindow_def Let_def split: prod.splits sum.splits)

lemma slidingWindow_reset:
  "slidingWindow tokens W identifier now s = (Inr r, s') \<Longrightarrow> reset r = (now div W + 1) * W"
  by (auto simp: slidingWindow_def Let_def split: prod.splits sum.splits)

lemma eventualWrite_reset:
  "eventualWrite unit tokens W identifier now s = (Inr r, s') \<Longrightarrow> reset r = (now div W + 1) * W"
  by (auto simp: eventualWrite_def Let_def split: prod.splits sum.splits)

lemma tokenBucket_script_reset:
  assumes "0 < I" and "tokenBucket_script k M I R now d = Inr ((rem, rst), d')"
  shows "now < rst"
  using assms
  by (auto simp: tokenBucket_script_def Let_def split: sum.splits option.splits if_splits)

lemma tokenBucket_reset:
  assumes "0 < I" and "tokenBucket R I M identifier now s = (Inr r, s')"
  shows "now < reset r"
proof -
  let ?k = "join_number identifier (now div I)"
  from assms(2) obtain rem rst d' where
    "tokenBucket_script ?k M I R now (db s) = Inr ((rem, rst), d')" and "reset r = rst"
    by (auto simp: tokenBucket_def redis_eval_def Let_def split: prod.splits sum.splits)
  with tokenBucket_script_reset [OF assms(1)] show ?thesis by simp
qed

lemma limiter_reset_future:
  assumes "0 < period alg" and "limiter_of alg identifier now s = (Inr r, s')"
  shows "now < reset r"
proof (cases alg)
  case (EventualWrite unit tokens W)
  with assms have e: "eventualWrite unit tokens W identifier now s = (Inr r, s')" and W: "0 < W"
    by simp_all
  show ?thesis
    using eventualWrite_reset [OF e] bucket_bounds(2) [OF W, of now] by simp
next
  case (FixedWindow tokens W)
  with assms have e: "fixedWindow tokens W identifier now s = (Inr r, s')" and W: "0 < W"
    by simp_all
  show ?thesis
    using fixedWindow_reset [OF e] bucket_bounds(2) [OF W, of now] by simp
next
  case (SlidingWindow tokens W)
  with assms have e: "slidingWindow tokens W identifier now s = (Inr r, s')" and W: "0 < W"
    by simp_all
  show ?thesis
    using slidingWindow_reset [OF e] bucket_bounds(2) [OF W, of now] by simp
next
  case (TokenBucket R I M)
  with assms have e: "tokenBucket R I M identifier now s = (Inr r, s')" and I: "0 < I"
    by simp_all
  show ?thesis
    by (rule tokenBucket_reset [OF I e])
qed

lemma fixedWindow_script_error: "fixedWindow_script k W now d = Inl e \<Longrightarrow> e = WrongType"
  by (auto simp: fixedWindow_script_def split: sum.splits prod.splits dest: call_errors)

lemma slidingWindow_script_error: "slidingWindow_script k k' tokens now W d = Inl e \<Longrightarrow> e = WrongType"
  by (auto simp: slidingWindow_script_def Let_def split: sum.splits prod.splits if_splits dest: call_errors)

lemma tokenBucket_script_error: "tokenBucket_script k M I R now d = Inl e \<Longrightarrow> e = WrongType"
  by (auto simp: tokenBucket_script_def Let_def split: sum.splits prod.splits option.splits if_splits dest: call_errors)

lemma limiter_error:
  assumes "limiter_of alg identifier now s = (Inl e, s')"
  shows "e = WrongType"
proof (cases alg)
  case (EventualWrite unit tokens W)
  with assms show ?thesis
    by (auto simp: eventualWrite_def redis_get_def Let_def split: sum.splits prod.splits dest: call_errors)
next
  case (FixedWindow tokens W)
  with assms show ?thesis
    by (auto simp: fixedWindow_def Let_def split: sum.splits prod.splits
             dest!: redis_eval_error [rotated] dest: fixedWindow_script_error)
next
  case (SlidingWindow tokens W)
  with assms show ?thesis
    by (auto simp: slidingWindow_def Let_def split: sum.splits prod.splits
             dest!: redis_eval_error [rotated] dest: slidingWindow_script_error)
next
  case (TokenBucket R I M)
  with assms show ?thesis
    by (auto simp: tokenBucket_def Let_def split: sum.splits prod.splits
             dest!: redis_eval_error [rotated] dest: tokenBucket_script_error)
qed

lemma blockUntilReady_loop_no_violation:
  assumes "0 < period alg" and "limiter this = limiter_of alg"
  shows "0 < clock w \<Longrightarrow>
         fst (blockUntilReady_loop fuel this identifier deadline w) \<noteq> Some (Inl ThisShouldNotHappen)"
proof (induction fuel arbitrary: w)
  case 0
  then show ?case by simp
next
  case (Suc fuel)
  obtain res s' where l: "Ratelimit_limit this identifier (clock w) (store w) = (res, s')"
    by (cases "Ratelimit_limit this identifier (clock w) (store w)")
  then have l': "limiter_of alg (join (prefix this) identifier) (clock w) (store w) = (res, s')"
    using assms(2) by (simp add: Ratelimit_limit_def)
  show ?case
  proof (cases res)
    case (Inl e)
    with limiter_error l' have "e = WrongType" by blast
    with Inl l show ?thesis by simp
  next
    case (Inr r)
    with limiter_reset_future [OF assms(1)] l' have "clock w < reset r" by blast
    with Suc.prems have nz: "reset r \<noteq> 0" by simp
    let ?w1 = "w\<lparr>store := s'\<rparr>"
    let ?w2 = "setTimeout (min (reset r) deadline - clock ?w1) ?w1"
    have "0 < clock ?w2" using Suc.prems by (simp add: setTimeout_def)
    from Suc.IH [OF this] show ?thesis
      using l Inr nz by (simp add: Let_def)
  qed
qed

subsection \<open>Requests in one bucket\<close>

text \<open>
  The \<open>n\<close>-th request of a bucket, by induction on the list of request times. The entry
  written by the first request outlives the bucket, so no later request of the bucket finds
  it expired.
\<close>

lemma requests_Cons:
  "requests l identifier (t # ts) s =
     (fst (l identifier t s) # fst (requests l identifier ts (snd (l identifier t s))),
      snd (requests l identifier ts (snd (l identifier t s))))"
  by (simp add: split_def)

lemma fixedWindow_requests_counter:
  assumes W: "0 < W"
  shows "db s (join_number identifier b) = Some \<lparr>val = Counter c, expireAt = Some x\<rparr> \<Longrightarrow>
         (b + 1) * W \<le> x \<Longrightarrow> \<forall>t\<in>set ts. t div W = b \<Longrightarrow>
         fst (requests (fixedWindow tokens W) identifier ts s)
           = map (\<lambda>n. Inr \<lparr>success = n \<le> tokens, limit = tokens, remaining = tokens - n,
                             reset = (b + 1) * W\<rparr>) [c + 1 .. c + int (length ts)]"
proof (induction ts arbitrary: s c x)
  case Nil
  then show ?case by simp
next
  case (Cons t ts)
  let ?k = "join_number identifier b"
  from Cons.prems have tb: "t div W = b" by simp
  have "t < (b + 1) * W" using bucket_bounds(2) [OF W, of t] tb by simp
  with Cons.prems(2) have "t < x" by simp
  with Cons.prems(1) have l: "lookup (db s) t ?k = Some \<lparr>val = Counter c, expireAt = Some x\<rparr>"
    by (simp add: lookup_def)
  have g: "call_GET t (join_number identifier (t div W)) (db s) = Inr (Some c)"
    unfolding tb by (rule call_GET_counter [OF l])
  let ?x' = "if c + 1 = 1 then t + W else x"
  let ?s' = "s\<lparr>db := (db s)(?k \<mapsto> \<lparr>val = Counter (c + 1), expireAt = Some ?x'\<rparr>),
              calls := calls s @ [EVAL [?k] [W]]\<rparr>"
  have step: "fixedWindow tokens W identifier t s =
           (Inr \<lparr>success = c + 1 \<le> tokens, limit = tokens, remaining = tokens - (c + 1),
                 reset = (b + 1) * W\<rparr>, ?s')"
    using fixedWindow_call [OF W g, of "c + 1" tokens] l by (simp add: tb)
  have "(b + 1) * W \<le> t + W" using bucket_bounds(1) [OF W, of t] tb by (simp add: algebra_simps)
  with Cons.prems(2) have x': "(b + 1) * W \<le> ?x'" by simp
  have "db ?s' ?k = Some \<lparr>val = Counter (c + 1), expireAt = Some ?x'\<rparr>" by simp
  from Cons.IH [OF this x'] Cons.prems(3)
  have IH: "fst (requests (fixedWindow tokens W) identifier ts ?s')
           = map (\<lambda>n. Inr \<lparr>success = n \<le> tokens, limit = tokens, remaining = tokens - n,
                             reset = (b + 1) * W\<rparr>) [c + 1 + 1 .. c + 1 + int (length ts)]" by simp
  have u: "[c + 1 .. c + int (length (t # ts))] = (c + 1) # [c + 1 + 1 .. c + 1 + int (length ts)]"
    by (simp add: upto_rec1 ac_simps)
  show ?case
    unfolding requests_Cons u step using IH by simp
qed

lemma fixedWindow_requests_fresh:
  assumes W: "0 < W" and fresh: "db s (join_number identifier b) = None"
    and ts: "\<forall>t\<in>set ts. t div W = b"
  shows "fst (requests (fixedWindow tokens W) identifier ts s)
           = map (\<lambda>n. Inr \<lparr>success = n \<le> tokens, limit = tokens, remaining = tokens - n,
                             reset = (b + 1) * W\<rparr>) [1 .. int (length ts)]"
proof (cases ts)
  case Nil
  then show ?thesis by simp
next
  case (Cons t ts')
  let ?k = "join_number identifier b"
  from Cons ts have tb: "t div W = b" and ts': "\<forall>t\<in>set ts'. t div W = b" by simp_all
  from fresh have l: "lookup (db s) t ?k = None" by (simp add: lookup_def)
  have g: "call_GET t (join_number identifier (t div W)) (db s) = Inr None"
    unfolding tb by (rule call_GET_absent [OF l])
  let ?s' = "s\<lparr>db := (db s)(?k \<mapsto> \<lparr>val = Counter 1, expireAt = Some (t + W)\<rparr>),
              calls := calls s @ [EVAL [?k] [W]]\<rparr>"
  have step: "fixedWindow tokens W identifier t s =
           (Inr \<lparr>success = 1 \<le> tokens, limit = tokens, remaining = tokens - 1,
                 reset = (b + 1) * W\<rparr>, ?s')"
    using fixedWindow_call [OF W g, of 1 tokens] by (simp add: tb)
  have x': "(b + 1) * W \<le> t + W" using bucket_bounds(1) [OF W, of t] tb by (simp add: algebra_simps)
  have "db ?s' ?k = Some \<lparr>val = Counter 1, expireAt = Some (t + W)\<rparr>" by simp
  from fixedWindow_requests_counter [OF W this x' ts', of tokens]
  have rest: "fst (requests (fixedWindow tokens W) identifier ts' ?s')
           = map (\<lambda>n. Inr \<lparr>success = n \<le> tokens, limit = tokens, remaining = tokens - n,
                             reset = (b + 1) * W\<rparr>) [1 + 1 .. 1 + int (length ts')]" .
  have u: "[1 .. int (length (t # ts'))] = 1 # [1 + 1 .. 1 + int (length ts')]"
    by (simp add: upto_rec1 ac_simps)
  show ?thesis
    unfolding Cons requests_Cons u step using rest by simp
qed

lemma tokenBucket_requests_bucket:
  assumes I: "0 < I"
  shows "db s (join_number identifier b) = Some \<lparr>val = Bucket u (max 0 (M - c)), expireAt = Some x\<rparr> \<Longrightarrow>
         u div I = b \<Longrightarrow> (b + 1) * I \<le> x \<Longrightarrow> \<forall>t\<in>set ts. t div I = b \<Longrightarrow>
         map (\<lambda>res. case res of Inl e \<Rightarrow> None | Inr r \<Rightarrow> Some (success r, remaining r))
             (fst (requests (tokenBucket R I M) identifier ts s))
           = map (\<lambda>n. Some (M - n > 0, max 0 (M - n))) [c + 1 .. c + int (length ts)]"
proof (induction ts arbitrary: s c u)
  case Nil
  then show ?case by simp
next
  case (Cons t ts)
  let ?k = "join_number identifier b"
  let ?P = "\<lambda>res. case res of Inl e \<Rightarrow> None | Inr r \<Rightarrow> Some (success r, remaining r)"
  from Cons.prems have tb: "t div I = b" by simp
  have "t < (b + 1) * I" using bucket_bounds(2) [OF I, of t] tb by simp
  with Cons.prems(3) have "t < x" by simp
  with Cons.prems(1) have l: "lookup (db s) t (join_number identifier (t div I))
        = Some \<lparr>val = Bucket u (max 0 (M - c)), expireAt = Some x\<rparr>"
    by (simp add: lookup_def tb)
  have "(b + 1) * I \<le> u + I"
    using bucket_bounds(1) [OF I, of u] Cons.prems(2) by (simp add: algebra_simps)
  with \<open>t < (b + 1) * I\<close> have notdue: "\<not> t \<ge> u + I" by simp
  have u: "[c + 1 .. c + int (length (t # ts))] = (c + 1) # [c + 1 + 1 .. c + 1 + int (length ts)]"
    by (simp add: upto_rec1 ac_simps)
  show ?case
  proof (cases "max 0 (M - c) > 0")
    case True
    let ?s' = "s\<lparr>db := (db s)(?k \<mapsto> \<lparr>val = Bucket t (max 0 (M - (c + 1))), expireAt = Some x\<rparr>),
                calls := calls s @ [EVAL [?k] [M, I, R, t]]\<rparr>"
    have m: "max 0 (M - c) - 1 = max 0 (M - (c + 1))" using True by simp
    have step: "tokenBucket R I M identifier t s =
             (Inr \<lparr>success = M - (c + 1) > 0, limit = M, remaining = max 0 (M - (c + 1)),
                   reset = u + I\<rparr>, ?s')"
      using tokenBucket_consume [OF l notdue True, of R M] True unfolding m by (simp add: tb)
    have "db ?s' ?k = Some \<lparr>val = Bucket t (max 0 (M - (c + 1))), expireAt = Some x\<rparr>" by simp
    from Cons.IH [OF this tb Cons.prems(3)] Cons.prems(4)
    have IH: "map ?P (fst (requests (tokenBucket R I M) identifier ts ?s'))
           = map (\<lambda>n. Some (M - n > 0, max 0 (M - n))) [c + 1 + 1 .. c + 1 + int (length ts)]"
      by simp
    show ?thesis
      unfolding requests_Cons u step using IH by simp
  next
    case False
    let ?s' = "s\<lparr>calls := calls s @ [EVAL [?k] [M, I, R, t]]\<rparr>"
    have m: "max 0 (M - c) = max 0 (M - (c + 1))" using False by simp
    have step: "tokenBucket R I M identifier t s =
             (Inr \<lparr>success = M - (c + 1) > 0, limit = M, remaining = max 0 (M - (c + 1)),
                   reset = u + I\<rparr>, ?s')"
      using tokenBucket_empty [OF l notdue False, of R M] False by (simp add: tb)
    have "db ?s' ?k = Some \<lparr>val = Bucket u (max 0 (M - (c + 1))), expireAt = Some x\<rparr>"
      using Cons.prems(1) m by simp
    from Cons.IH [OF this Cons.prems(2) Cons.prems(3)] Cons.prems(4)
    have IH: "map ?P (fst (requests (tokenBucket R I M) identifier ts ?s'))
           = map (\<lambda>n. Some (M - n > 0, max 0 (M - n))) [c + 1 + 1 .. c + 1 + int (length ts)]"
      by simp
    show ?thesis
      unfolding requests_Cons u step using IH by simp
  qed
qed

lemma tokenBucket_requests_fresh:
  assumes I: "0 < I" and M: "1 \<le> M" and fresh: "db s (join_number identifier b) = None"
    and ts: "\<forall>t\<in>set ts. t div I = b"
  shows "map (\<lambda>res. case res of Inl e \<Rightarrow> None | Inr r \<Rightarrow> Some (success r, remaining r))
             (fst (requests (tokenBucket R I M) identifier ts s))
           = map (\<lambda>n. Some (M - n > 0, max 0 (M - n))) [1 .. int (length ts)]"
proof (cases ts)
  case Nil
  then show ?thesis by simp
next
  case (Cons t ts')
  let ?k = "join_number identifier b"
  let ?P = "\<lambda>res. case res of Inl e \<Rightarrow> None | Inr r \<Rightarrow> Some (success r, remaining r)"
  from Cons ts have tb: "t div I = b" and ts': "\<forall>t\<in>set ts'. t div I = b" by simp_all
  from fresh have l: "lookup (db s) t (join_number identifier (t div I)) = None"
    by (simp add: lookup_def tb)
  let ?s' = "s\<lparr>db := (db s)(?k \<mapsto> \<lparr>val = Bucket t (max 0 (M - 1)), expireAt = Some (t + I)\<rparr>),
              calls := calls s @ [EVAL [?k] [M, I, R, t]]\<rparr>"
  have step: "tokenBucket R I M identifier t s =
           (Inr \<lparr>success = M - 1 > 0, limit = M, remaining = max 0 (M - 1), reset = t + I\<rparr>, ?s')"
    using tokenBucket_fresh [OF I l, of R M] M by (simp add: tb)
  have x': "(b + 1) * I \<le> t + I" using bucket_bounds(1) [OF I, of t] tb by (simp add: algebra_simps)
  have "db ?s' ?k = Some \<lparr>val = Bucket t (max 0 (M - 1)), expireAt = Some (t + I)\<rparr>" by simp
  from tokenBucket_requests_bucket [OF I this tb x' ts', of R]
  have rest: "map ?P (fst (requests (tokenBucket R I M) identifier ts' ?s'))
           = map (\<lambda>n. Some (M - n > 0, max 0 (M - n))) [1 + 1 .. 1 + int (length ts')]" .
  have u: "[1 .. int (length (t # ts'))] = 1 # [1 + 1 .. 1 + int (length ts')]"
    by (simp add: upto_rec1 ac_simps)
  show ?thesis
    unfolding Cons requests_Cons u step using rest by simp
qed

lemma tokenBucket_one_step:
  assumes inv: "\<forall>k e. db s k = Some e \<longrightarrow> (\<exists>u t. val e = Bucket u t \<and> t \<le> 0)"
  shows "(\<exists>r. fst (tokenBucket R I 1 identifier now s) = Inr r \<and> \<not> success r)
       \<and> (\<forall>k e. db (snd (tokenBucket R I 1 identifier now s)) k = Some e \<longrightarrow> (\<exists>u t. val e = Bucket u t \<and> t \<le> 0))"
proof -
  let ?k = "join_number identifier (now div I)"
  show ?thesis
  proof (cases "lookup (db s) now ?k")
    case None
    then have h: "call_HMGET now ?k (db s) = Inr None"
      "call_HMSET now ?k now 0 (db s) = Inr ((db s)(?k \<mapsto> \<lparr>val = Bucket now 0, expireAt = None\<rparr>))"
      by (simp_all add: call_HMGET_absent call_HMSET_absent)
    have p: "call_PEXPIRE now ?k I ((db s)(?k \<mapsto> \<lparr>val = Bucket now 0, expireAt = None\<rparr>))
          = (if I \<le> 0 then (db s)(?k := None)
             else (db s)(?k \<mapsto> \<lparr>val = Bucket now 0, expireAt = Some (now + I)\<rparr>))"
      by (simp add: call_PEXPIRE_def lookup_update_fresh)
    show ?thesis
      using inv
      by (simp add: tokenBucket_def tokenBucket_script_def redis_eval_def log_def Let_def h p)
  next
    case (Some e)
    with lookup_live have dk: "db s ?k = Some e" by blast
    with inv obtain u t where e: "val e = Bucket u t" and t: "t \<le> 0" by blast
    have "e = \<lparr>val = val e, expireAt = expireAt e\<rparr>" by simp
    with e Some have l: "lookup (db s) now ?k = Some \<lparr>val = Bucket u t, expireAt = expireAt e\<rparr>"
      by simp
    show ?thesis
    proof (cases "now \<ge> u + I")
      case True
      have "min 1 (t + R) - 1 \<le> 0" by simp
      then show ?thesis
        using inv by (simp add: tokenBucket_refill [OF l True])
    next
      case False
      from t have "\<not> t > 0" by simp
      from tokenBucket_empty [OF l False this] show ?thesis
        using inv by simp
    qed
  qed
qed

lemma tokenBucket_one_requests:
  "\<forall>k e. db s k = Some e \<longrightarrow> (\<exists>u t. val e = Bucket u t \<and> t \<le> 0) \<Longrightarrow>
   \<forall>res\<in>set (fst (requests (tokenBucket R I 1) identifier ts s)). \<exists>r. res = Inr r \<and> \<not> success r"
proof (induction ts arbitrary: s)
  case Nil
  then show ?case by simp
next
  case (Cons t ts)
  have "(\<exists>r. fst (tokenBucket R I 1 identifier t s) = Inr r \<and> \<not> success r)
       \<and> (\<forall>k e. db (snd (tokenBucket R I 1 identifier t s)) k = Some e \<longrightarrow> (\<exists>u t. val e = Bucket u t \<and> t \<le> 0))"
    by (rule tokenBucket_one_step [OF Cons.prems])
  then have a: "\<exists>r. fst (tokenBucket R I 1 identifier t s) = Inr r \<and> \<not> success r"
    and b: "\<forall>k e. db (snd (tokenBucket R I 1 identifier t s)) k = Some e \<longrightarrow> (\<exists>u t. val e = Bucket u t \<and> t \<le> 0)"
    by blast+
  from Cons.IH [OF b] a show ?case
    unfolding requests_Cons by simp
qed

subsection \<open>The keys a sliding window reads\<close>

text \<open>
  The answer of the sliding-window script depends on the two keys it is given and on no
  other key of the database.
\<close>

lemma slidingWindow_script_frame:
  assumes "k \<noteq> ck" and "k \<noteq> pk"
  shows "(case slidingWindow_script ck pk tokens now W (d(k := x)) of Inl e \<Rightarrow> Inl e | Inr (r, d') \<Rightarrow> Inr r)
       = (case slidingWindow_script ck pk tokens now W d of Inl e \<Rightarrow> Inl e | Inr (r, d') \<Rightarrow> Inr r)"
proof -
  have l: "lookup (d(k := x)) now ck = lookup d now ck" "lookup (d(k := x)) now pk = lookup d now pk"
    using assms by (simp_all add: lookup_update_other)
  show ?thesis
    by (simp add: slidingWindow_script_def call_GET_def call_INCR_def l Let_def
             split: option.splits rvalue.splits sum.splits)
qed

lemma slidingWindow_fst:
  "fst (slidingWindow tokens W identifier now s) =
     (case (case slidingWindow_script (join_number identifier (now div W))
                   (join_number identifier (now div W - W)) tokens now W (db s) of
              Inl e \<Rightarrow> Inl e | Inr (r, d') \<Rightarrow> Inr r) of
        Inl e \<Rightarrow> Inl e
      | Inr r \<Rightarrow> Inr \<lparr>success = r > 0, limit = tokens, remaining = r, reset = (now div W + 1) * W\<rparr>)"
  by (simp add: slidingWindow_def redis_eval_def Let_def split: sum.splits prod.splits)

subsection \<open>What every answer of the token bucket satisfies\<close>

lemma tokenBucket_limit_success:
  "tokenBucket R I M identifier now s = (Inr r, s') \<Longrightarrow> limit r = M \<and> success r = (remaining r > 0)"
  by (auto simp: tokenBucket_def Let_def split: prod.splits sum.splits)

lemma tokenBucket_calls:
  "calls (snd (tokenBucket R I M identifier now s))
     = calls s @ [EVAL [join_number identifier (now div I)] [M, I, R, now]]"
  by (simp add: tokenBucket_def redis_eval_def log_def Let_def split: sum.splits prod.splits)

subsection \<open>The fixed window writes on every request\<close>

lemma fixedWindow_changes_counter:
  assumes W: "0 < W"
    and g: "call_GET now (join_number identifier (now div W)) (db s) = Inr g"
  shows "db (snd (fixedWindow tokens W identifier now s)) (join_number identifier (now div W))
           \<noteq> db s (join_number identifier (now div W))"
proof -
  let ?k = "join_number identifier (now div W)"
  let ?c = "case g of None \<Rightarrow> 1 | Some v \<Rightarrow> v + 1"
  let ?x = "if ?c = 1 then Some (now + W) else (case lookup (db s) now ?k of None \<Rightarrow> None | Some e \<Rightarrow> expireAt e)"
  have after: "db (snd (fixedWindow tokens W identifier now s)) ?k = Some \<lparr>val = Counter ?c, expireAt = ?x\<rparr>"
    using fixedWindow_call [OF W g refl, of tokens] by simp
  from call_GET_cases [OF g] show ?thesis
  proof (elim disjE conjE exE)
    assume gn: "g = None" and l: "lookup (db s) now ?k = None"
    show ?thesis
    proof (cases "db s ?k")
      case None
      with after show ?thesis by simp
    next
      case (Some e)
      with l obtain t where "expireAt e = Some t" "t \<le> now"
        by (auto simp: lookup_def split: option.splits if_splits)
      with W have "expireAt e \<noteq> Some (now + W)" by simp
      with after gn Some show ?thesis by auto
    qed
  next
    fix v
    assume gv: "g = Some v"
      and l: "lookup (db s) now ?k = Some \<lparr>val = Counter v, expireAt = (case lookup (db s) now ?k of None \<Rightarrow> None | Some e \<Rightarrow> expireAt e)\<rparr>"
    from lookup_live [OF l] have "val (the (db s ?k)) = Counter v" by simp
    moreover from after gv have "val (the (db (snd (fixedWindow tokens W identifier now s)) ?k)) = Counter (v + 1)"
      by simp
    ultimately show ?thesis by auto
  qed
qed

subsection \<open>Expired entries\<close>

lemma lookup_expired:
  "d k = None \<or> (d k = Some e \<and> expireAt e = Some t \<and> t \<le> now) \<Longrightarrow> lookup d now k = None"
  by (auto simp: lookup_def)

subsection \<open>A weighted count rounded below the quota\<close>

text \<open>
  With quota \<open>1\<close>, a window of \<open>1000\<close>, \<open>now = 5900\<close> and \<open>10\<close> under the previous key, the
  doubles give \<open>0.9999999999999998\<close> for a weighted count whose value without rounding is
  \<open>1\<close>: the script increments and sets the expiry, and the request is denied all the same,
  since \<open>remaining = 0\<close>.
\<close>

lemma slidingWindow_rounded_below_quota:
  "slidingWindow 1 1000 ''user'' 5900
        \<lparr>db = [join_number ''user'' (- 995) \<mapsto> \<lparr>val = Counter 10, expireAt = None\<rparr>], calls = []\<rparr>
     = (Inr \<lparr>success = False, limit = 1, remaining = 0, reset = 6000\<rparr>,
        \<lparr>db = [join_number ''user'' (- 995) \<mapsto> \<lparr>val = Counter 10, expireAt = None\<rparr>,
               join_number ''user'' 5 \<mapsto> \<lparr>val = Counter 1, expireAt = Some 8900\<rparr>],
         calls = [EVAL [join_number ''user'' 5, join_number ''user'' (- 995)] [1, 5900, 1000]]\<rparr>)"
proof -
  let ?s = "\<lparr>db = [join_number ''user'' (- 995) \<mapsto> \<lparr>val = Counter 10, expireAt = None\<rparr>],
            calls = []\<rparr>"
  have W: "(0::int) < 1000" by simp
  have g1: "call_GET 5900 (join_number ''user'' (5900 div 1000)) (db ?s) = Inr None"
    by (simp add: call_GET_def lookup_def join_number_eq_iff)
  have g2: "call_GET 5900 (join_number ''user'' (5900 div 1000 - 1000)) (db ?s) = Inr (Some 10)"
    by (simp add: call_GET_def lookup_def join_number_eq_iff)
  have c0: "(0::int) = (case None of None \<Rightarrow> 0 | Some v \<Rightarrow> v)"
    and c10: "(10::int) = (case Some 10 of None \<Rightarrow> 0 | Some v \<Rightarrow> v)"
    by simp_all
  have r: "\<not> double (double (of_int 10 * double (1 - double (of_int (5900 mod 1000) / of_int 1000)))
                      + of_int 0) \<ge> of_int 1"
    by code_simp
  have n: "(1::int) = 0 + 1" by simp
  show ?thesis
    using slidingWindow_admit [OF W g1 g2 c0 c10 refl r n] by simp
qed

section \<open>The claims\<close>

text \<open>
  Claim C1 (fixed window). With a positive window \<open>W\<close>, a call at time \<open>now\<close> sends one
  \<^verbatim>\<open>EVAL\<close> on the key of the identifier joined with the bucket \<open>now div W\<close>. On a key that
  holds no hash the counter is incremented to \<open>c\<close> (\<open>1\<close> on a missing or expired key), the
  expiry of the key is set to \<open>W\<close> milliseconds from now exactly when \<open>c = 1\<close> and is left as
  it was otherwise, and the response is \<open>success = (c \<le> tokens)\<close>, \<open>limit = tokens\<close>,
  \<open>remaining = tokens - c\<close>, \<open>reset = (bucket + 1) * W\<close>. Consequently the \<open>n\<close>-th request
  of a bucket whose key was missing has \<open>remaining = tokens - n\<close> and \<open>success = (n \<le> tokens)\<close>
  for every \<open>n\<close>; the request number \<open>tokens + 1\<close> is denied with \<open>remaining = -1\<close>.
\<close>

theorem fixedWindow_spec:
  assumes "0 < W"
  shows "(\<forall>g c. call_GET now (join_number identifier (now div W)) (db s) = Inr g
              \<and> c = (case g of None \<Rightarrow> 1 | Some v \<Rightarrow> v + 1) \<longrightarrow>
            fixedWindow tokens W identifier now s =
              (Inr \<lparr>success = c \<le> tokens, limit = tokens, remaining = tokens - c,
                    reset = (now div W + 1) * W\<rparr>,
               s\<lparr>db := (db s)(join_number identifier (now div W) \<mapsto>
                        \<lparr>val = Counter c,
                         expireAt = (if c = 1 then Some (now + W)
                                     else (case lookup (db s) now (join_number identifier (now div W)) of
                                             None \<Rightarrow> None | Some e \<Rightarrow> expireAt e))\<rparr>),
                 calls := calls s @ [EVAL [join_number identifier (now div W)] [W]]\<rparr>))
       \<and> (\<forall>b ts. db s (join_number identifier b) = None \<and> (\<forall>t\<in>set ts. t div W = b) \<longrightarrow>
            fst (requests (fixedWindow tokens W) identifier ts s)
              = map (\<lambda>n. Inr \<lparr>success = n \<le> tokens, limit = tokens, remaining = tokens - n,
                                reset = (b + 1) * W\<rparr>) [1 .. int (length ts)]
            \<and> (0 \<le> tokens \<and> nat tokens < length ts \<longrightarrow>
                 fst (requests (fixedWindow tokens W) identifier ts s) ! nat tokens
                   = Inr \<lparr>success = False, limit = tokens, remaining = - 1, reset = (b + 1) * W\<rparr>))"
proof (intro conjI allI impI)
  fix g c
  assume "call_GET now (join_number identifier (now div W)) (db s) = Inr g
              \<and> c = (case g of None \<Rightarrow> 1 | Some v \<Rightarrow> v + 1)"
  then show "fixedWindow tokens W identifier now s =
              (Inr \<lparr>success = c \<le> tokens, limit = tokens, remaining = tokens - c,
                    reset = (now div W + 1) * W\<rparr>,
               s\<lparr>db := (db s)(join_number identifier (now div W) \<mapsto>
                        \<lparr>val = Counter c,
                         expireAt = (if c = 1 then Some (now + W)
                                     else (case lookup (db s) now (join_number identifier (now div W)) of
                                             None \<Rightarrow> None | Some e \<Rightarrow> expireAt e))\<rparr>),
                 calls := calls s @ [EVAL [join_number identifier (now div W)] [W]]\<rparr>)"
    using fixedWindow_call [OF assms] by blast
next
  fix b ts
  assume h: "db s (join_number identifier b) = None \<and> (\<forall>t\<in>set ts. t div W = b)"
  then show all: "fst (requests (fixedWindow tokens W) identifier ts s)
              = map (\<lambda>n. Inr \<lparr>success = n \<le> tokens, limit = tokens, remaining = tokens - n,
                                reset = (b + 1) * W\<rparr>) [1 .. int (length ts)]"
    using fixedWindow_requests_fresh [OF assms] by blast
  assume n: "0 \<le> tokens \<and> nat tokens < length ts"
  then have "[1 .. int (length ts)] ! nat tokens = 1 + int (nat tokens)"
    by (intro nth_upto) linarith
  with n show "fst (requests (fixedWindow tokens W) identifier ts s) ! nat tokens
                   = Inr \<lparr>success = False, limit = tokens, remaining = - 1, reset = (b + 1) * W\<rparr>"
    unfolding all by simp
qed

theorem fixedWindow_spec_witness:
  "(0::int) < 1000
   \<and> call_GET 5000 (join_number ''user'' (5000 div 1000)) (db empty_redis) = Inr None
   \<and> fixedWindow 2 1000 ''user'' 5000 empty_redis =
       (Inr \<lparr>success = True, limit = 2, remaining = 1, reset = 6000\<rparr>,
        \<lparr>db = [join_number ''user'' 5 \<mapsto> \<lparr>val = Counter 1, expireAt = Some 6000\<rparr>],
         calls = [EVAL [join_number ''user'' 5] [1000]]\<rparr>)
   \<and> db empty_redis (join_number ''user'' 5) = None
   \<and> fst (requests (fixedWindow 2 1000) ''user'' [5000, 5001, 5999] empty_redis) =
       [Inr \<lparr>success = True, limit = 2, remaining = 1, reset = 6000\<rparr>,
        Inr \<lparr>success = True, limit = 2, remaining = 0, reset = 6000\<rparr>,
        Inr \<lparr>success = False, limit = 2, remaining = - 1, reset = 6000\<rparr>]
   \<and> fst (requests (fixedWindow 2 1000) ''user'' [5000, 5001, 5999] empty_redis) ! 2 =
        Inr \<lparr>success = False, limit = 2, remaining = - 1, reset = 6000\<rparr>"
proof -
  have W: "(0::int) < 1000" by simp
  have g: "call_GET 5000 (join_number ''user'' (5000 div 1000)) (db empty_redis) = Inr None"
    by (simp add: call_GET_def lookup_def empty_redis_def)
  have f: "db empty_redis (join_number ''user'' 5) = None"
    by (simp add: empty_redis_def)
  have ts: "\<forall>t\<in>set [5000, 5001, 5999]. t div 1000 = (5::int)" by simp
  have u: "[1 .. 3] = [1, 2, 3::int]" by (simp add: upto_rec1)
  note th = fixedWindow_spec [OF W, of 5000 "''user''" empty_redis 2]
  note one = th [THEN conjunct1, THEN spec, THEN spec, THEN mp, OF conjI [OF g refl]]
  note seq = th [THEN conjunct2, THEN spec, THEN spec, THEN mp, OF conjI [OF f ts]]
  from one have 1: "fixedWindow 2 1000 ''user'' 5000 empty_redis =
       (Inr \<lparr>success = True, limit = 2, remaining = 1, reset = 6000\<rparr>,
        \<lparr>db = [join_number ''user'' 5 \<mapsto> \<lparr>val = Counter 1, expireAt = Some 6000\<rparr>],
         calls = [EVAL [join_number ''user'' 5] [1000]]\<rparr>)"
    by (simp add: empty_redis_def)
  from seq [THEN conjunct1]
  have 2: "fst (requests (fixedWindow 2 1000) ''user'' [5000, 5001, 5999] empty_redis) =
       [Inr \<lparr>success = True, limit = 2, remaining = 1, reset = 6000\<rparr>,
        Inr \<lparr>success = True, limit = 2, remaining = 0, reset = 6000\<rparr>,
        Inr \<lparr>success = False, limit = 2, remaining = - 1, reset = 6000\<rparr>]"
    by (simp add: u del: requests.simps)
  from seq [THEN conjunct2]
  have 3: "fst (requests (fixedWindow 2 1000) ''user'' [5000, 5001, 5999] empty_redis) ! 2 =
        Inr \<lparr>success = False, limit = 2, remaining = - 1, reset = 6000\<rparr>"
    by (simp del: requests.simps)
  from W g f 1 2 3 show ?thesis by blast
qed

text \<open>
  Claim C2 (sliding window), as amended. With a positive window \<open>W\<close>, let \<open>currentCount\<close>
  and \<open>previousCount\<close> be the counters the script reads under its two keys (a missing key
  counts \<open>0\<close>), and let the weighted count be computed as the script computes it, in
  doubles: \<open>weight\<close> is \<open>(now mod W) / W\<close> rounded, and the weighted count is
  \<open>previousCount * (1 - weight) + currentCount\<close> with the difference, the product and the
  sum each rounded. If that weighted count is at least \<open>tokens\<close> the call answers
  \<open>success = False\<close> and \<open>remaining = 0\<close> and writes nothing. Otherwise it increments the
  current counter to \<open>newValue\<close>, sets the expiry of that key to \<open>2 * W + 1000\<close>
  milliseconds exactly when \<open>newValue = 1\<close>, and answers \<open>remaining = tokens - newValue\<close>
  with \<open>success = (remaining > 0)\<close>. In both cases \<open>limit = tokens\<close> and
  \<open>reset = (currentBucket + 1) * W\<close>.
\<close>

theorem slidingWindow_spec:
  assumes "0 < W"
    and "call_GET now (join_number identifier (now div W)) (db s) = Inr g1"
    and "call_GET now (join_number identifier (now div W - W)) (db s) = Inr g2"
    and "currentCount = (case g1 of None \<Rightarrow> 0 | Some v \<Rightarrow> v)"
    and "previousCount = (case g2 of None \<Rightarrow> 0 | Some v \<Rightarrow> v)"
    and "weight = double (of_int (now mod W) / of_int W)"
    and "weightedCount
           = double (double (of_int previousCount * double (1 - weight)) + of_int currentCount)"
    and "newValue = currentCount + 1"
  shows "(weightedCount \<ge> of_int tokens \<longrightarrow>
            slidingWindow tokens W identifier now s =
              (Inr \<lparr>success = False, limit = tokens, remaining = 0, reset = (now div W + 1) * W\<rparr>,
               s\<lparr>calls := calls s @ [EVAL [join_number identifier (now div W),
                                            join_number identifier (now div W - W)]
                                           [tokens, now, W]]\<rparr>))
       \<and> (\<not> weightedCount \<ge> of_int tokens \<longrightarrow>
            slidingWindow tokens W identifier now s =
              (Inr \<lparr>success = tokens - newValue > 0, limit = tokens, remaining = tokens - newValue,
                    reset = (now div W + 1) * W\<rparr>,
               s\<lparr>db := (db s)(join_number identifier (now div W) \<mapsto>
                        \<lparr>val = Counter newValue,
                         expireAt = (if newValue = 1 then Some (now + (W * 2 + 1000))
                                     else (case lookup (db s) now (join_number identifier (now div W)) of
                                             None \<Rightarrow> None | Some e \<Rightarrow> expireAt e))\<rparr>),
                 calls := calls s @ [EVAL [join_number identifier (now div W),
                                            join_number identifier (now div W - W)]
                                           [tokens, now, W]]\<rparr>))"
proof (intro conjI impI)
  assume "weightedCount \<ge> of_int tokens"
  with assms(7)
  have "double (double (of_int previousCount * double (1 - weight)) + of_int currentCount)
          \<ge> of_int tokens"
    by simp
  from slidingWindow_deny [OF assms(2) assms(3) assms(4) assms(5) assms(6) this]
  show "slidingWindow tokens W identifier now s =
              (Inr \<lparr>success = False, limit = tokens, remaining = 0, reset = (now div W + 1) * W\<rparr>,
               s\<lparr>calls := calls s @ [EVAL [join_number identifier (now div W),
                                            join_number identifier (now div W - W)]
                                           [tokens, now, W]]\<rparr>)" .
next
  assume "\<not> weightedCount \<ge> of_int tokens"
  with assms(7)
  have "\<not> double (double (of_int previousCount * double (1 - weight)) + of_int currentCount)
            \<ge> of_int tokens"
    by simp
  from slidingWindow_admit [OF assms(1) assms(2) assms(3) assms(4) assms(5) assms(6) this assms(8)]
  show "slidingWindow tokens W identifier now s =
              (Inr \<lparr>success = tokens - newValue > 0, limit = tokens, remaining = tokens - newValue,
                    reset = (now div W + 1) * W\<rparr>,
               s\<lparr>db := (db s)(join_number identifier (now div W) \<mapsto>
                        \<lparr>val = Counter newValue,
                         expireAt = (if newValue = 1 then Some (now + (W * 2 + 1000))
                                     else (case lookup (db s) now (join_number identifier (now div W)) of
                                             None \<Rightarrow> None | Some e \<Rightarrow> expireAt e))\<rparr>),
                 calls := calls s @ [EVAL [join_number identifier (now div W),
                                            join_number identifier (now div W - W)]
                                           [tokens, now, W]]\<rparr>)" .
qed

theorem slidingWindow_spec_witness:
  "slidingWindow 2 1000 ''user'' 5250
      \<lparr>db = [join_number ''user'' 5 \<mapsto> \<lparr>val = Counter 1, expireAt = Some 8000\<rparr>,
             join_number ''user'' (- 995) \<mapsto> \<lparr>val = Counter 2, expireAt = None\<rparr>],
       calls = []\<rparr>
     = (Inr \<lparr>success = False, limit = 2, remaining = 0, reset = 6000\<rparr>,
        \<lparr>db = [join_number ''user'' 5 \<mapsto> \<lparr>val = Counter 1, expireAt = Some 8000\<rparr>,
               join_number ''user'' (- 995) \<mapsto> \<lparr>val = Counter 2, expireAt = None\<rparr>],
         calls = [EVAL [join_number ''user'' 5, join_number ''user'' (- 995)] [2, 5250, 1000]]\<rparr>)
   \<and> slidingWindow 1 1000 ''user'' 5250 empty_redis
     = (Inr \<lparr>success = False, limit = 1, remaining = 0, reset = 6000\<rparr>,
        \<lparr>db = [join_number ''user'' 5 \<mapsto> \<lparr>val = Counter 1, expireAt = Some 8250\<rparr>],
         calls = [EVAL [join_number ''user'' 5, join_number ''user'' (- 995)] [1, 5250, 1000]]\<rparr>)"
proof -
  let ?s = "\<lparr>db = [join_number ''user'' 5 \<mapsto> \<lparr>val = Counter 1, expireAt = Some 8000\<rparr>,
                  join_number ''user'' (- 995) \<mapsto> \<lparr>val = Counter 2, expireAt = None\<rparr>],
            calls = []\<rparr>"
  have W: "(0::int) < 1000" by simp
  have g1: "call_GET 5250 (join_number ''user'' (5250 div 1000)) (db ?s) = Inr (Some 1)"
    by (simp add: call_GET_def lookup_def join_number_eq_iff)
  have g2: "call_GET 5250 (join_number ''user'' (5250 div 1000 - 1000)) (db ?s) = Inr (Some 2)"
    by (simp add: call_GET_def lookup_def join_number_eq_iff)
  have e1: "call_GET 5250 (join_number ''user'' (5250 div 1000)) (db empty_redis) = Inr None"
    by (simp add: call_GET_def lookup_def empty_redis_def)
  have e2: "call_GET 5250 (join_number ''user'' (5250 div 1000 - 1000)) (db empty_redis) = Inr None"
    by (simp add: call_GET_def lookup_def empty_redis_def)
  have c1: "(1::int) = (case Some 1 of None \<Rightarrow> 0 | Some v \<Rightarrow> v)"
    and c2: "(2::int) = (case Some 2 of None \<Rightarrow> 0 | Some v \<Rightarrow> v)"
    and c0: "(0::int) = (case None of None \<Rightarrow> 0 | Some v \<Rightarrow> v)"
    by simp_all
  have wt: "(1 / 4 :: rat) = double (of_int (5250 mod 1000) / of_int 1000)"
    by code_simp
  have full: "(5 / 2 :: rat) = double (double (of_int 2 * double (1 - 1 / 4)) + of_int 1)"
    by code_simp
  have none: "(0 :: rat) = double (double (of_int 0 * double (1 - 1 / 4)) + of_int 0)"
    by code_simp
  have n2: "(2::int) = 1 + 1" and n1: "(1::int) = 0 + 1" by simp_all
  have d: "(5 / 2 :: rat) \<ge> of_int 2" by simp
  have a: "\<not> (0 :: rat) \<ge> of_int 1" by simp
  note deny = slidingWindow_spec [OF W g1 g2 c1 c2 wt full n2, of 2, THEN conjunct1, THEN mp, OF d]
  note admit = slidingWindow_spec [OF W e1 e2 c0 c0 wt none n1, of 1, THEN conjunct2, THEN mp, OF a]
  from deny have 1: "slidingWindow 2 1000 ''user'' 5250 ?s
     = (Inr \<lparr>success = False, limit = 2, remaining = 0, reset = 6000\<rparr>,
        \<lparr>db = [join_number ''user'' 5 \<mapsto> \<lparr>val = Counter 1, expireAt = Some 8000\<rparr>,
               join_number ''user'' (- 995) \<mapsto> \<lparr>val = Counter 2, expireAt = None\<rparr>],
         calls = [EVAL [join_number ''user'' 5, join_number ''user'' (- 995)] [2, 5250, 1000]]\<rparr>)"
    by simp
  from admit have 2: "slidingWindow 1 1000 ''user'' 5250 empty_redis
     = (Inr \<lparr>success = False, limit = 1, remaining = 0, reset = 6000\<rparr>,
        \<lparr>db = [join_number ''user'' 5 \<mapsto> \<lparr>val = Counter 1, expireAt = Some 8250\<rparr>],
         calls = [EVAL [join_number ''user'' 5, join_number ''user'' (- 995)] [1, 5250, 1000]]\<rparr>)"
    by (simp add: empty_redis_def)
  from 1 2 show ?thesis by blast
qed

text \<open>
  Claim C2 as first stated decides on the exact value of
  \<open>previousCount * (1 - weight) + currentCount\<close>. With quota \<open>2\<close>, a window of \<open>1000\<close>,
  \<open>now = 5900\<close>, \<open>20\<close> under the previous key and nothing under the current one, the exact
  value is \<open>20 * (1 - 9/10) = 2\<close>, which reaches the quota; the doubles give
  \<open>1.9999999999999996\<close>, so the script increments and the request is admitted. The same
  happens with quota \<open>31\<close>, a window of \<open>31\<close>, \<open>now = 1005\<close>, \<open>31\<close> under the previous key and
  \<open>13\<close> under the current one: the exact value is \<open>31\<close>, the doubles give
  \<open>30.999999999999996\<close>.
\<close>

theorem slidingWindow_exact_count_admits:
  "of_int 20 * (1 - of_int (5900 mod 1000) / of_int 1000) + of_int 0 \<ge> (of_int 2 :: rat)
   \<and> slidingWindow 2 1000 ''user'' 5900
        \<lparr>db = [join_number ''user'' (- 995) \<mapsto> \<lparr>val = Counter 20, expireAt = None\<rparr>], calls = []\<rparr>
     = (Inr \<lparr>success = True, limit = 2, remaining = 1, reset = 6000\<rparr>,
        \<lparr>db = [join_number ''user'' (- 995) \<mapsto> \<lparr>val = Counter 20, expireAt = None\<rparr>,
               join_number ''user'' 5 \<mapsto> \<lparr>val = Counter 1, expireAt = Some 8900\<rparr>],
         calls = [EVAL [join_number ''user'' 5, join_number ''user'' (- 995)] [2, 5900, 1000]]\<rparr>)
   \<and> of_int 31 * (1 - of_int (1005 mod 31) / of_int 31) + of_int 13 \<ge> (of_int 31 :: rat)
   \<and> slidingWindow 31 31 ''user'' 1005
        \<lparr>db = [join_number ''user'' 1 \<mapsto> \<lparr>val = Counter 31, expireAt = Some 1093\<rparr>,
               join_number ''user'' 32 \<mapsto> \<lparr>val = Counter 13, expireAt = Some 2054\<rparr>],
         calls = []\<rparr>
     = (Inr \<lparr>success = True, limit = 31, remaining = 17, reset = 1023\<rparr>,
        \<lparr>db = [join_number ''user'' 1 \<mapsto> \<lparr>val = Counter 31, expireAt = Some 1093\<rparr>,
               join_number ''user'' 32 \<mapsto> \<lparr>val = Counter 14, expireAt = Some 2054\<rparr>],
         calls = [EVAL [join_number ''user'' 32, join_number ''user'' 1] [31, 1005, 31]]\<rparr>)"
proof -
  let ?s = "\<lparr>db = [join_number ''user'' (- 995) \<mapsto> \<lparr>val = Counter 20, expireAt = None\<rparr>],
            calls = []\<rparr>"
  let ?t = "\<lparr>db = [join_number ''user'' 1 \<mapsto> \<lparr>val = Counter 31, expireAt = Some 1093\<rparr>,
                  join_number ''user'' 32 \<mapsto> \<lparr>val = Counter 13, expireAt = Some 2054\<rparr>],
            calls = []\<rparr>"
  have exact1: "of_int 20 * (1 - of_int (5900 mod 1000) / of_int 1000) + of_int 0 \<ge> (of_int 2 :: rat)"
    by simp
  have exact2: "of_int 31 * (1 - of_int (1005 mod 31) / of_int 31) + of_int 13 \<ge> (of_int 31 :: rat)"
    by simp
  have W1: "(0::int) < 1000" and W2: "(0::int) < 31" by simp_all
  have g1: "call_GET 5900 (join_number ''user'' (5900 div 1000)) (db ?s) = Inr None"
    by (simp add: call_GET_def lookup_def join_number_eq_iff)
  have g2: "call_GET 5900 (join_number ''user'' (5900 div 1000 - 1000)) (db ?s) = Inr (Some 20)"
    by (simp add: call_GET_def lookup_def join_number_eq_iff)
  have h1: "call_GET 1005 (join_number ''user'' (1005 div 31)) (db ?t) = Inr (Some 13)"
    by (simp add: call_GET_def lookup_def join_number_eq_iff)
  have h2: "call_GET 1005 (join_number ''user'' (1005 div 31 - 31)) (db ?t) = Inr (Some 31)"
    by (simp add: call_GET_def lookup_def join_number_eq_iff)
  have l1: "lookup (db ?t) 1005 (join_number ''user'' 32) = Some \<lparr>val = Counter 13, expireAt = Some 2054\<rparr>"
    by (simp add: lookup_def join_number_eq_iff)
  have c0: "(0::int) = (case None of None \<Rightarrow> 0 | Some v \<Rightarrow> v)"
    and c20: "(20::int) = (case Some 20 of None \<Rightarrow> 0 | Some v \<Rightarrow> v)"
    and c13: "(13::int) = (case Some 13 of None \<Rightarrow> 0 | Some v \<Rightarrow> v)"
    and c31: "(31::int) = (case Some 31 of None \<Rightarrow> 0 | Some v \<Rightarrow> v)"
    by simp_all
  have r1: "\<not> double (double (of_int 20 * double (1 - double (of_int (5900 mod 1000) / of_int 1000)))
                       + of_int 0) \<ge> of_int 2"
    by code_simp
  have r2: "\<not> double (double (of_int 31 * double (1 - double (of_int (1005 mod 31) / of_int 31)))
                       + of_int 13) \<ge> of_int 31"
    by code_simp
  have n1: "(1::int) = 0 + 1" and n14: "(14::int) = 13 + 1" by simp_all
  have 1: "slidingWindow 2 1000 ''user'' 5900 ?s
     = (Inr \<lparr>success = True, limit = 2, remaining = 1, reset = 6000\<rparr>,
        \<lparr>db = [join_number ''user'' (- 995) \<mapsto> \<lparr>val = Counter 20, expireAt = None\<rparr>,
               join_number ''user'' 5 \<mapsto> \<lparr>val = Counter 1, expireAt = Some 8900\<rparr>],
         calls = [EVAL [join_number ''user'' 5, join_number ''user'' (- 995)] [2, 5900, 1000]]\<rparr>)"
    using slidingWindow_admit [OF W1 g1 g2 c0 c20 refl r1 n1] by simp
  have 2: "slidingWindow 31 31 ''user'' 1005 ?t
     = (Inr \<lparr>success = True, limit = 31, remaining = 17, reset = 1023\<rparr>,
        \<lparr>db = [join_number ''user'' 1 \<mapsto> \<lparr>val = Counter 31, expireAt = Some 1093\<rparr>,
               join_number ''user'' 32 \<mapsto> \<lparr>val = Counter 14, expireAt = Some 2054\<rparr>],
         calls = [EVAL [join_number ''user'' 32, join_number ''user'' 1] [31, 1005, 31]]\<rparr>)"
    using slidingWindow_admit [OF W2 h1 h2 c13 c31 refl r2 n14] l1 by simp
  from exact1 1 exact2 2 show ?thesis by blast
qed

text \<open>
  Claim C3 (the previous bucket of the sliding window). The script is sent the key of the
  bucket \<open>now div W\<close> and, as the key of the previous bucket, the key of the index
  \<open>now div W - W\<close>: the window length is subtracted from the index. For \<open>W > 1\<close> that key
  differs from the key of the index \<open>now div W - 1\<close>, under which the requests of the
  window just before were counted, and the answer does not depend on what is stored under
  the latter.
\<close>

theorem slidingWindow_previous_key:
  "calls (snd (slidingWindow tokens W identifier now s))
     = calls s @ [EVAL [join_number identifier (now div W), join_number identifier (now div W - W)]
                       [tokens, now, W]]
   \<and> (1 < W \<longrightarrow>
        join_number identifier (now div W - W) \<noteq> join_number identifier (now div W - 1)
        \<and> fst (slidingWindow tokens W identifier now
                 (s\<lparr>db := (db s)(join_number identifier (now div W - 1) := x)\<rparr>))
            = fst (slidingWindow tokens W identifier now s))"
proof (intro conjI impI)
  show "calls (snd (slidingWindow tokens W identifier now s))
     = calls s @ [EVAL [join_number identifier (now div W), join_number identifier (now div W - W)]
                       [tokens, now, W]]"
    by (simp add: slidingWindow_def redis_eval_def log_def Let_def split: sum.splits prod.splits)
next
  assume W: "1 < W"
  then show "join_number identifier (now div W - W) \<noteq> join_number identifier (now div W - 1)"
    by (simp add: join_number_eq_iff)
  have "join_number identifier (now div W - 1) \<noteq> join_number identifier (now div W)"
    "join_number identifier (now div W - 1) \<noteq> join_number identifier (now div W - W)"
    using W by (simp_all add: join_number_eq_iff)
  then show "fst (slidingWindow tokens W identifier now
                 (s\<lparr>db := (db s)(join_number identifier (now div W - 1) := x)\<rparr>))
            = fst (slidingWindow tokens W identifier now s)"
    by (simp add: slidingWindow_fst slidingWindow_script_frame)
qed

theorem slidingWindow_previous_key_witness:
  "join_number ''user'' (- 995) \<noteq> join_number ''user'' 4
   \<and> fst (slidingWindow 2 1000 ''user'' 5000
            \<lparr>db = [join_number ''user'' 4 \<mapsto> \<lparr>val = Counter 2, expireAt = Some 7000\<rparr>], calls = []\<rparr>)
       = fst (slidingWindow 2 1000 ''user'' 5000 empty_redis)"
proof -
  have W: "(1::int) < 1000" by simp
  from slidingWindow_previous_key
         [of 2 1000 "''user''" 5000 empty_redis "Some \<lparr>val = Counter 2, expireAt = Some 7000\<rparr>",
          THEN conjunct2, THEN mp, OF W]
  show ?thesis by (simp add: empty_redis_def)
qed

text \<open>
  Claim C4 (token bucket). With a positive interval \<open>I\<close>, a call at time \<open>now\<close> sends one
  \<^verbatim>\<open>EVAL\<close> on the key of the identifier joined with \<open>now div I\<close>, and on a key that holds
  no counter the script takes exactly one of four branches:
  (a) the hash is missing: it writes \<open>updatedAt = now\<close> and \<open>tokens = M - 1\<close>, sets the
  expiry to \<open>I\<close>, and answers \<open>(M - 1, now + I)\<close>;
  (b) \<open>now \<ge> updatedAt + I\<close>: it writes \<open>updatedAt = now\<close> and
  \<open>tokens = min M (storedTokens + R) - 1\<close>, one step of \<open>R\<close> however long the pause was,
  leaves the expiry as it is, and answers that value with \<open>now + I\<close>;
  (c) otherwise, \<open>storedTokens > 0\<close>: it writes \<open>updatedAt = now\<close> and
  \<open>tokens = storedTokens - 1\<close> and answers \<open>(storedTokens - 1, updatedAt + I)\<close> with the
  \<open>updatedAt\<close> it found;
  (d) otherwise it writes nothing and answers \<open>(0, updatedAt + I)\<close>; the first component is
  \<open>0\<close> also when the stored value is negative.
  Every response has \<open>limit = M\<close> and \<open>success = (remaining > 0)\<close>.
\<close>

theorem tokenBucket_spec:
  assumes "0 < I"
  shows "(lookup (db s) now (join_number identifier (now div I)) = None \<longrightarrow>
            tokenBucket R I M identifier now s =
              (Inr \<lparr>success = M - 1 > 0, limit = M, remaining = M - 1, reset = now + I\<rparr>,
               s\<lparr>db := (db s)(join_number identifier (now div I) \<mapsto>
                        \<lparr>val = Bucket now (M - 1), expireAt = Some (now + I)\<rparr>),
                 calls := calls s @ [EVAL [join_number identifier (now div I)] [M, I, R, now]]\<rparr>))
       \<and> (\<forall>updatedAt storedTokens x.
            lookup (db s) now (join_number identifier (now div I))
              = Some \<lparr>val = Bucket updatedAt storedTokens, expireAt = x\<rparr> \<longrightarrow>
            (now \<ge> updatedAt + I \<longrightarrow>
               tokenBucket R I M identifier now s =
                 (Inr \<lparr>success = min M (storedTokens + R) - 1 > 0, limit = M,
                       remaining = min M (storedTokens + R) - 1, reset = now + I\<rparr>,
                  s\<lparr>db := (db s)(join_number identifier (now div I) \<mapsto>
                           \<lparr>val = Bucket now (min M (storedTokens + R) - 1), expireAt = x\<rparr>),
                    calls := calls s @ [EVAL [join_number identifier (now div I)] [M, I, R, now]]\<rparr>))
          \<and> (\<not> now \<ge> updatedAt + I \<and> storedTokens > 0 \<longrightarrow>
               tokenBucket R I M identifier now s =
                 (Inr \<lparr>success = storedTokens - 1 > 0, limit = M,
                       remaining = storedTokens - 1, reset = updatedAt + I\<rparr>,
                  s\<lparr>db := (db s)(join_number identifier (now div I) \<mapsto>
                           \<lparr>val = Bucket now (storedTokens - 1), expireAt = x\<rparr>),
                    calls := calls s @ [EVAL [join_number identifier (now div I)] [M, I, R, now]]\<rparr>))
          \<and> (\<not> now \<ge> updatedAt + I \<and> \<not> storedTokens > 0 \<longrightarrow>
               tokenBucket R I M identifier now s =
                 (Inr \<lparr>success = False, limit = M, remaining = 0, reset = updatedAt + I\<rparr>,
                  s\<lparr>calls := calls s @ [EVAL [join_number identifier (now div I)] [M, I, R, now]]\<rparr>)))
       \<and> (\<forall>r s'. tokenBucket R I M identifier now s = (Inr r, s') \<longrightarrow>
            limit r = M \<and> success r = (remaining r > 0))
       \<and> calls (snd (tokenBucket R I M identifier now s))
            = calls s @ [EVAL [join_number identifier (now div I)] [M, I, R, now]]"
  using assms
  by (intro conjI allI impI)
     (simp_all add: tokenBucket_fresh tokenBucket_refill tokenBucket_consume tokenBucket_empty
        tokenBucket_limit_success tokenBucket_calls)

theorem tokenBucket_spec_witness:
  "tokenBucket 1 1000 3 ''user'' 5000 empty_redis =
     (Inr \<lparr>success = True, limit = 3, remaining = 2, reset = 6000\<rparr>,
      \<lparr>db = [join_number ''user'' 5 \<mapsto> \<lparr>val = Bucket 5000 2, expireAt = Some 6000\<rparr>],
       calls = [EVAL [join_number ''user'' 5] [3, 1000, 1, 5000]]\<rparr>)
   \<and> tokenBucket 1 1000 3 ''user'' 5000
        \<lparr>db = [join_number ''user'' 5 \<mapsto> \<lparr>val = Bucket 3900 0, expireAt = None\<rparr>], calls = []\<rparr> =
     (Inr \<lparr>success = False, limit = 3, remaining = 0, reset = 6000\<rparr>,
      \<lparr>db = [join_number ''user'' 5 \<mapsto> \<lparr>val = Bucket 5000 0, expireAt = None\<rparr>],
       calls = [EVAL [join_number ''user'' 5] [3, 1000, 1, 5000]]\<rparr>)
   \<and> tokenBucket 1 1000 3 ''user'' 5001
        \<lparr>db = [join_number ''user'' 5 \<mapsto> \<lparr>val = Bucket 5000 2, expireAt = Some 6000\<rparr>], calls = []\<rparr> =
     (Inr \<lparr>success = True, limit = 3, remaining = 1, reset = 6000\<rparr>,
      \<lparr>db = [join_number ''user'' 5 \<mapsto> \<lparr>val = Bucket 5001 1, expireAt = Some 6000\<rparr>],
       calls = [EVAL [join_number ''user'' 5] [3, 1000, 1, 5001]]\<rparr>)
   \<and> tokenBucket 1 1000 3 ''user'' 5001
        \<lparr>db = [join_number ''user'' 5 \<mapsto> \<lparr>val = Bucket 5000 0, expireAt = Some 6000\<rparr>], calls = []\<rparr> =
     (Inr \<lparr>success = False, limit = 3, remaining = 0, reset = 6000\<rparr>,
      \<lparr>db = [join_number ''user'' 5 \<mapsto> \<lparr>val = Bucket 5000 0, expireAt = Some 6000\<rparr>],
       calls = [EVAL [join_number ''user'' 5] [3, 1000, 1, 5001]]\<rparr>)
   \<and> tokenBucket 1 1000 0 ''user'' 5001
        \<lparr>db = [join_number ''user'' 5 \<mapsto> \<lparr>val = Bucket 5000 (- 1), expireAt = Some 6000\<rparr>], calls = []\<rparr> =
     (Inr \<lparr>success = False, limit = 0, remaining = 0, reset = 6000\<rparr>,
      \<lparr>db = [join_number ''user'' 5 \<mapsto> \<lparr>val = Bucket 5000 (- 1), expireAt = Some 6000\<rparr>],
       calls = [EVAL [join_number ''user'' 5] [0, 1000, 1, 5001]]\<rparr>)"
proof -
  have I: "(0::int) < 1000" by simp
  let ?k = "join_number ''user'' 5"
  let ?sb = "\<lparr>db = [?k \<mapsto> \<lparr>val = Bucket 3900 0, expireAt = None\<rparr>], calls = []\<rparr>"
  let ?sc = "\<lparr>db = [?k \<mapsto> \<lparr>val = Bucket 5000 2, expireAt = Some 6000\<rparr>], calls = []\<rparr>"
  let ?sd = "\<lparr>db = [?k \<mapsto> \<lparr>val = Bucket 5000 0, expireAt = Some 6000\<rparr>], calls = []\<rparr>"
  have la: "lookup (db empty_redis) 5000 (join_number ''user'' (5000 div 1000)) = None"
    by (simp add: lookup_def empty_redis_def)
  have lb: "lookup (db ?sb) 5000 (join_number ''user'' (5000 div 1000))
              = Some \<lparr>val = Bucket 3900 0, expireAt = None\<rparr>"
    by (simp add: lookup_def)
  have lc: "lookup (db ?sc) 5001 (join_number ''user'' (5001 div 1000))
              = Some \<lparr>val = Bucket 5000 2, expireAt = Some 6000\<rparr>"
    by (simp add: lookup_def)
  have ld: "lookup (db ?sd) 5001 (join_number ''user'' (5001 div 1000))
              = Some \<lparr>val = Bucket 5000 0, expireAt = Some 6000\<rparr>"
    by (simp add: lookup_def)
  let ?sn = "\<lparr>db = [?k \<mapsto> \<lparr>val = Bucket 5000 (- 1), expireAt = Some 6000\<rparr>], calls = []\<rparr>"
  have ln: "lookup (db ?sn) 5001 (join_number ''user'' (5001 div 1000))
              = Some \<lparr>val = Bucket 5000 (- 1), expireAt = Some 6000\<rparr>"
    by (simp add: lookup_def)
  have dn: "\<not> (5001::int) \<ge> 5000 + 1000 \<and> \<not> (- 1::int) > 0" by simp
  have db: "(5000::int) \<ge> 3900 + 1000" by simp
  have dc: "\<not> (5001::int) \<ge> 5000 + 1000 \<and> (2::int) > 0" by simp
  have dd: "\<not> (5001::int) \<ge> 5000 + 1000 \<and> \<not> (0::int) > 0" by simp
  note a = tokenBucket_spec [OF I, of empty_redis 5000 "''user''" 1 3, THEN conjunct1, THEN mp, OF la]
  note b = tokenBucket_spec [OF I, of ?sb 5000 "''user''" 1 3, THEN conjunct2, THEN conjunct1,
             THEN spec, THEN spec, THEN spec, THEN mp, OF lb, THEN conjunct1, THEN mp, OF db]
  note c = tokenBucket_spec [OF I, of ?sc 5001 "''user''" 1 3, THEN conjunct2, THEN conjunct1,
             THEN spec, THEN spec, THEN spec, THEN mp, OF lc, THEN conjunct2, THEN conjunct1, THEN mp, OF dc]
  note d = tokenBucket_spec [OF I, of ?sd 5001 "''user''" 1 3, THEN conjunct2, THEN conjunct1,
             THEN spec, THEN spec, THEN spec, THEN mp, OF ld, THEN conjunct2, THEN conjunct2, THEN mp, OF dd]
  note e = tokenBucket_spec [OF I, of ?sn 5001 "''user''" 1 0, THEN conjunct2, THEN conjunct1,
             THEN spec, THEN spec, THEN spec, THEN mp, OF ln, THEN conjunct2, THEN conjunct2, THEN mp, OF dn]
  from e have 5: "tokenBucket 1 1000 0 ''user'' 5001 ?sn =
     (Inr \<lparr>success = False, limit = 0, remaining = 0, reset = 6000\<rparr>,
      \<lparr>db = [?k \<mapsto> \<lparr>val = Bucket 5000 (- 1), expireAt = Some 6000\<rparr>],
       calls = [EVAL [?k] [0, 1000, 1, 5001]]\<rparr>)"
    by simp
  from a have 1: "tokenBucket 1 1000 3 ''user'' 5000 empty_redis =
     (Inr \<lparr>success = True, limit = 3, remaining = 2, reset = 6000\<rparr>,
      \<lparr>db = [?k \<mapsto> \<lparr>val = Bucket 5000 2, expireAt = Some 6000\<rparr>],
       calls = [EVAL [?k] [3, 1000, 1, 5000]]\<rparr>)"
    by (simp add: empty_redis_def)
  from b have 2: "tokenBucket 1 1000 3 ''user'' 5000 ?sb =
     (Inr \<lparr>success = False, limit = 3, remaining = 0, reset = 6000\<rparr>,
      \<lparr>db = [?k \<mapsto> \<lparr>val = Bucket 5000 0, expireAt = None\<rparr>],
       calls = [EVAL [?k] [3, 1000, 1, 5000]]\<rparr>)"
    by simp
  from c have 3: "tokenBucket 1 1000 3 ''user'' 5001 ?sc =
     (Inr \<lparr>success = True, limit = 3, remaining = 1, reset = 6000\<rparr>,
      \<lparr>db = [?k \<mapsto> \<lparr>val = Bucket 5001 1, expireAt = Some 6000\<rparr>],
       calls = [EVAL [?k] [3, 1000, 1, 5001]]\<rparr>)"
    by simp
  from d have 4: "tokenBucket 1 1000 3 ''user'' 5001 ?sd =
     (Inr \<lparr>success = False, limit = 3, remaining = 0, reset = 6000\<rparr>,
      \<lparr>db = [?k \<mapsto> \<lparr>val = Bucket 5000 0, expireAt = Some 6000\<rparr>],
       calls = [EVAL [?k] [3, 1000, 1, 5001]]\<rparr>)"
    by simp
  from 1 2 3 4 5 show ?thesis by blast
qed

text \<open>
  Claim C5 (denial and the store), as amended. A denied call leaves the database as it
  was on two paths: in the sliding window when the script denies on the weighted count as
  it computes it, in doubles, before its \<^verbatim>\<open>INCR\<close>, and in the token bucket on branch (d),
  where no token is stored and no refill is due. The fixed window increments its counter on every call, whatever
  the answer, so its call always changes the database.
\<close>

theorem denial_without_write:
  assumes "0 < W"
  shows "(\<forall>g1 g2 currentCount previousCount weight.
            call_GET now (join_number identifier (now div W)) (db s) = Inr g1
          \<and> call_GET now (join_number identifier (now div W - W)) (db s) = Inr g2
          \<and> currentCount = (case g1 of None \<Rightarrow> 0 | Some v \<Rightarrow> v)
          \<and> previousCount = (case g2 of None \<Rightarrow> 0 | Some v \<Rightarrow> v)
          \<and> weight = double (of_int (now mod W) / of_int W)
          \<and> double (double (of_int previousCount * double (1 - weight)) + of_int currentCount)
                \<ge> of_int tokens \<longrightarrow>
            (\<exists>r s'. slidingWindow tokens W identifier now s = (Inr r, s')
                   \<and> \<not> success r \<and> db s' = db s))
       \<and> (\<forall>updatedAt storedTokens x.
            lookup (db s) now (join_number identifier (now div I))
              = Some \<lparr>val = Bucket updatedAt storedTokens, expireAt = x\<rparr>
          \<and> now < updatedAt + I \<and> storedTokens \<le> 0 \<longrightarrow>
            (\<exists>r s'. tokenBucket R I M identifier now s = (Inr r, s')
                   \<and> \<not> success r \<and> db s' = db s))
       \<and> (\<forall>g. call_GET now (join_number identifier (now div W)) (db s) = Inr g \<longrightarrow>
            db (snd (fixedWindow tokens W identifier now s)) \<noteq> db s)"
proof (intro conjI allI impI)
  fix g1 g2 currentCount previousCount weight
  assume h: "call_GET now (join_number identifier (now div W)) (db s) = Inr g1
          \<and> call_GET now (join_number identifier (now div W - W)) (db s) = Inr g2
          \<and> currentCount = (case g1 of None \<Rightarrow> 0 | Some v \<Rightarrow> v)
          \<and> previousCount = (case g2 of None \<Rightarrow> 0 | Some v \<Rightarrow> v)
          \<and> weight = double (of_int (now mod W) / of_int W)
          \<and> double (double (of_int previousCount * double (1 - weight)) + of_int currentCount)
                \<ge> of_int tokens"
  then have "slidingWindow tokens W identifier now s =
           (Inr \<lparr>success = False, limit = tokens, remaining = 0, reset = (now div W + 1) * W\<rparr>,
            s\<lparr>calls := calls s @ [EVAL [join_number identifier (now div W),
                                         join_number identifier (now div W - W)]
                                        [tokens, now, W]]\<rparr>)"
    using slidingWindow_deny [of now "identifier" W s g1 g2 currentCount previousCount weight tokens]
    by blast
  then show "\<exists>r s'. slidingWindow tokens W identifier now s = (Inr r, s') \<and> \<not> success r \<and> db s' = db s"
    by simp
next
  fix updatedAt storedTokens x
  assume h: "lookup (db s) now (join_number identifier (now div I))
              = Some \<lparr>val = Bucket updatedAt storedTokens, expireAt = x\<rparr>
          \<and> now < updatedAt + I \<and> storedTokens \<le> 0"
  then have "tokenBucket R I M identifier now s =
           (Inr \<lparr>success = False, limit = M, remaining = 0, reset = updatedAt + I\<rparr>,
            s\<lparr>calls := calls s @ [EVAL [join_number identifier (now div I)] [M, I, R, now]]\<rparr>)"
    using tokenBucket_empty [of s now "identifier" I updatedAt storedTokens x R M]
    by simp
  then show "\<exists>r s'. tokenBucket R I M identifier now s = (Inr r, s') \<and> \<not> success r \<and> db s' = db s"
    by simp
next
  fix g
  assume "call_GET now (join_number identifier (now div W)) (db s) = Inr g"
  from fixedWindow_changes_counter [OF assms this, of tokens]
  show "db (snd (fixedWindow tokens W identifier now s)) \<noteq> db s"
    by auto
qed

theorem denial_without_write_witness:
  "(\<exists>r s'. slidingWindow 2 1000 ''user'' 5250
              \<lparr>db = [join_number ''user'' 5 \<mapsto> \<lparr>val = Counter 1, expireAt = Some 8000\<rparr>,
                     join_number ''user'' (- 995) \<mapsto> \<lparr>val = Counter 2, expireAt = None\<rparr>],
               calls = []\<rparr> = (Inr r, s')
          \<and> \<not> success r
          \<and> db s' = [join_number ''user'' 5 \<mapsto> \<lparr>val = Counter 1, expireAt = Some 8000\<rparr>,
                      join_number ''user'' (- 995) \<mapsto> \<lparr>val = Counter 2, expireAt = None\<rparr>])
   \<and> (\<exists>r s'. tokenBucket 1 1000 3 ''user'' 5001
              \<lparr>db = [join_number ''user'' 5 \<mapsto> \<lparr>val = Bucket 5000 0, expireAt = Some 6000\<rparr>],
               calls = []\<rparr> = (Inr r, s')
          \<and> \<not> success r
          \<and> db s' = [join_number ''user'' 5 \<mapsto> \<lparr>val = Bucket 5000 0, expireAt = Some 6000\<rparr>])
   \<and> db (snd (fixedWindow 2 1000 ''user'' 5250 empty_redis)) \<noteq> db empty_redis"
proof -
  let ?s = "\<lparr>db = [join_number ''user'' 5 \<mapsto> \<lparr>val = Counter 1, expireAt = Some 8000\<rparr>,
                  join_number ''user'' (- 995) \<mapsto> \<lparr>val = Counter 2, expireAt = None\<rparr>],
            calls = []\<rparr>"
  let ?t = "\<lparr>db = [join_number ''user'' 5 \<mapsto> \<lparr>val = Bucket 5000 0, expireAt = Some 6000\<rparr>],
            calls = []\<rparr>"
  have W: "(0::int) < 1000" by simp
  have hs: "call_GET 5250 (join_number ''user'' (5250 div 1000)) (db ?s) = Inr (Some 1)
          \<and> call_GET 5250 (join_number ''user'' (5250 div 1000 - 1000)) (db ?s) = Inr (Some 2)
          \<and> (1::int) = (case Some 1 of None \<Rightarrow> 0 | Some v \<Rightarrow> v)
          \<and> (2::int) = (case Some 2 of None \<Rightarrow> 0 | Some v \<Rightarrow> v)
          \<and> (1 / 4 :: rat) = double (of_int (5250 mod 1000) / of_int 1000)
          \<and> double (double (of_int 2 * double (1 - (1 / 4 :: rat))) + of_int 1) \<ge> of_int 2"
  proof -
    have "(1 / 4 :: rat) = double (of_int (5250 mod 1000) / of_int 1000)"
      by code_simp
    moreover have "double (double (of_int 2 * double (1 - (1 / 4 :: rat))) + of_int 1) \<ge> of_int 2"
      by code_simp
    ultimately show ?thesis
      by (simp add: call_GET_def lookup_def join_number_eq_iff)
  qed
  have ht: "lookup (db ?t) 5001 (join_number ''user'' (5001 div 1000))
              = Some \<lparr>val = Bucket 5000 0, expireAt = Some 6000\<rparr>
          \<and> (5001::int) < 5000 + 1000 \<and> (0::int) \<le> 0"
    by (simp add: lookup_def)
  have hf: "call_GET 5250 (join_number ''user'' (5250 div 1000)) (db empty_redis) = Inr None"
    by (simp add: call_GET_def lookup_def empty_redis_def)
  note a = denial_without_write [OF W, of 5250 "''user''" ?s 2 1000 1 3, THEN conjunct1,
             THEN spec, THEN spec, THEN spec, THEN spec, THEN spec, THEN mp, OF hs]
  note b = denial_without_write [OF W, of 5001 "''user''" ?t 2 1000 1 3, THEN conjunct2, THEN conjunct1,
             THEN spec, THEN spec, THEN spec, THEN mp, OF ht]
  note c = denial_without_write [OF W, of 5250 "''user''" empty_redis 2 1000 1 3, THEN conjunct2,
             THEN conjunct2, THEN spec, THEN mp, OF hf]
  from a b c show ?thesis by simp
qed

text \<open>
  Claim C5 as first stated says that no denied call of the fixed window changes the store.
  The second request of a bucket with quota \<open>1\<close> is denied with \<open>remaining = -1\<close>, and the
  counter under its key has gone from \<open>1\<close> to \<open>2\<close>.
\<close>

theorem denied_fixedWindow_writes:
  "fst (fixedWindow 1 1000 ''user'' 5001 (snd (fixedWindow 1 1000 ''user'' 5000 empty_redis)))
     = Inr \<lparr>success = False, limit = 1, remaining = - 1, reset = 6000\<rparr>
   \<and> db (snd (fixedWindow 1 1000 ''user'' 5000 empty_redis)) (join_number ''user'' 5)
     = Some \<lparr>val = Counter 1, expireAt = Some 6000\<rparr>
   \<and> db (snd (fixedWindow 1 1000 ''user'' 5001 (snd (fixedWindow 1 1000 ''user'' 5000 empty_redis))))
        (join_number ''user'' 5)
     = Some \<lparr>val = Counter 2, expireAt = Some 6000\<rparr>
   \<and> db (snd (fixedWindow 1 1000 ''user'' 5001 (snd (fixedWindow 1 1000 ''user'' 5000 empty_redis))))
     \<noteq> db (snd (fixedWindow 1 1000 ''user'' 5000 empty_redis))"
proof -
  have W: "(0::int) < 1000" by simp
  have g: "call_GET 5000 (join_number ''user'' (5000 div 1000)) (db empty_redis) = Inr None"
    by (simp add: call_GET_def lookup_def empty_redis_def)
  let ?s1 = "\<lparr>db = [join_number ''user'' 5 \<mapsto> \<lparr>val = Counter 1, expireAt = Some 6000\<rparr>],
             calls = [EVAL [join_number ''user'' 5] [1000]]\<rparr>"
  have 1: "snd (fixedWindow 1 1000 ''user'' 5000 empty_redis) = ?s1"
    using fixedWindow_call [OF W g refl, of 1] by (simp add: empty_redis_def)
  have g': "call_GET 5001 (join_number ''user'' (5001 div 1000)) (db ?s1) = Inr (Some 1)"
    by (simp add: call_GET_def lookup_def)
  have l': "lookup (db ?s1) 5001 (join_number ''user'' 5) = Some \<lparr>val = Counter 1, expireAt = Some 6000\<rparr>"
    by (simp add: lookup_def)
  have r: "fst (fixedWindow 1 1000 ''user'' 5001 ?s1)
             = Inr \<lparr>success = False, limit = 1, remaining = - 1, reset = 6000\<rparr>"
    and after: "db (snd (fixedWindow 1 1000 ''user'' 5001 ?s1)) (join_number ''user'' 5)
             = Some \<lparr>val = Counter 2, expireAt = Some 6000\<rparr>"
    using fixedWindow_call [OF W g' refl, of 1] l' by simp_all
  have before: "db ?s1 (join_number ''user'' 5) = Some \<lparr>val = Counter 1, expireAt = Some 6000\<rparr>"
    by simp
  have changed: "db (snd (fixedWindow 1 1000 ''user'' 5001 ?s1)) \<noteq> db ?s1"
  proof
    assume "db (snd (fixedWindow 1 1000 ''user'' 5001 ?s1)) = db ?s1"
    then have "db (snd (fixedWindow 1 1000 ''user'' 5001 ?s1)) (join_number ''user'' 5)
                 = db ?s1 (join_number ''user'' 5)"
      by (rule fun_cong)
    with after before show False by simp
  qed
  from r before after changed show ?thesis
    unfolding 1 by blast
qed

text \<open>
  Claim C6 (eventual write). The decision is computed from one \<^verbatim>\<open>GET\<close> of the bucket's
  counter, sent before the increment: with \<open>v\<close> the value read, a missing key being read
  as \<open>1\<close>, the response is \<open>success = (v \<le> tokens)\<close>, \<open>limit = tokens\<close>,
  \<open>remaining = tokens - v\<close>, \<open>reset = (bucket + 1) * W\<close>. The increment follows as a
  request of its own and brings the counter to \<open>c\<close>; the expiry is set exactly when
  \<open>c = 1\<close> (to the window length, counted in the unit of the client's \<^verbatim>\<open>expire\<close>).
  On a key that holds \<open>n\<close> the response is computed from \<open>n\<close> while the store goes to
  \<open>n + 1\<close>. A key that is missing or expired is read as a missing one: the
  first request of a bucket has \<open>remaining = tokens - 1\<close> and succeeds exactly when
  \<open>tokens \<ge> 1\<close>.
\<close>

theorem eventualWrite_spec:
  assumes "0 < W" and "0 < unit"
  shows "(\<forall>g v c. call_GET now (join_number identifier (now div W)) (db s) = Inr g
              \<and> v = (case g of None \<Rightarrow> 1 | Some n \<Rightarrow> n)
              \<and> c = (case g of None \<Rightarrow> 1 | Some n \<Rightarrow> n + 1) \<longrightarrow>
            eventualWrite unit tokens W identifier now s =
              (Inr \<lparr>success = v \<le> tokens, limit = tokens, remaining = tokens - v,
                    reset = (now div W + 1) * W\<rparr>,
               s\<lparr>db := (db s)(join_number identifier (now div W) \<mapsto>
                        \<lparr>val = Counter c,
                         expireAt = (if c = 1 then Some (now + W * unit)
                                     else (case lookup (db s) now (join_number identifier (now div W)) of
                                             None \<Rightarrow> None | Some e \<Rightarrow> expireAt e))\<rparr>),
                 calls := calls s @ [GET (join_number identifier (now div W)),
                                     INCR (join_number identifier (now div W))]
                                @ (if c = 1 then [EXPIRE (join_number identifier (now div W)) W] else [])\<rparr>))
       \<and> (\<forall>e t. db s (join_number identifier (now div W)) = None
                \<or> (db s (join_number identifier (now div W)) = Some e \<and> expireAt e = Some t \<and> t \<le> now) \<longrightarrow>
            fst (eventualWrite unit tokens W identifier now s) =
              Inr \<lparr>success = 1 \<le> tokens, limit = tokens, remaining = tokens - 1,
                   reset = (now div W + 1) * W\<rparr>)"
proof (intro conjI allI impI)
  fix g v c
  assume "call_GET now (join_number identifier (now div W)) (db s) = Inr g
              \<and> v = (case g of None \<Rightarrow> 1 | Some n \<Rightarrow> n)
              \<and> c = (case g of None \<Rightarrow> 1 | Some n \<Rightarrow> n + 1)"
  then show "eventualWrite unit tokens W identifier now s =
              (Inr \<lparr>success = v \<le> tokens, limit = tokens, remaining = tokens - v,
                    reset = (now div W + 1) * W\<rparr>,
               s\<lparr>db := (db s)(join_number identifier (now div W) \<mapsto>
                        \<lparr>val = Counter c,
                         expireAt = (if c = 1 then Some (now + W * unit)
                                     else (case lookup (db s) now (join_number identifier (now div W)) of
                                             None \<Rightarrow> None | Some e \<Rightarrow> expireAt e))\<rparr>),
                 calls := calls s @ [GET (join_number identifier (now div W)),
                                     INCR (join_number identifier (now div W))]
                                @ (if c = 1 then [EXPIRE (join_number identifier (now div W)) W] else [])\<rparr>)"
    using eventualWrite_call [OF assms, of now "identifier" s g v c tokens] by blast
next
  fix e t
  assume "db s (join_number identifier (now div W)) = None
                \<or> (db s (join_number identifier (now div W)) = Some e \<and> expireAt e = Some t \<and> t \<le> now)"
  then have "lookup (db s) now (join_number identifier (now div W)) = None"
    by (rule lookup_expired)
  then have g: "call_GET now (join_number identifier (now div W)) (db s) = Inr None"
    by (rule call_GET_absent)
  from eventualWrite_call [OF assms g, of 1 1 tokens]
  show "fst (eventualWrite unit tokens W identifier now s) =
              Inr \<lparr>success = 1 \<le> tokens, limit = tokens, remaining = tokens - 1,
                   reset = (now div W + 1) * W\<rparr>"
    by simp
qed

theorem eventualWrite_spec_witness:
  "eventualWrite 1000 2 1000 ''user'' 5000 empty_redis =
     (Inr \<lparr>success = True, limit = 2, remaining = 1, reset = 6000\<rparr>,
      \<lparr>db = [join_number ''user'' 5 \<mapsto> \<lparr>val = Counter 1, expireAt = Some 1005000\<rparr>],
       calls = [GET (join_number ''user'' 5), INCR (join_number ''user'' 5),
                EXPIRE (join_number ''user'' 5) 1000]\<rparr>)
   \<and> eventualWrite 1000 2 1000 ''user'' 5001
        \<lparr>db = [join_number ''user'' 5 \<mapsto> \<lparr>val = Counter 2, expireAt = Some 1005000\<rparr>], calls = []\<rparr> =
     (Inr \<lparr>success = True, limit = 2, remaining = 0, reset = 6000\<rparr>,
      \<lparr>db = [join_number ''user'' 5 \<mapsto> \<lparr>val = Counter 3, expireAt = Some 1005000\<rparr>],
       calls = [GET (join_number ''user'' 5), INCR (join_number ''user'' 5)]\<rparr>)
   \<and> fst (eventualWrite 1000 2 1000 ''user'' 5001
        \<lparr>db = [join_number ''user'' 5 \<mapsto> \<lparr>val = Counter 7, expireAt = Some 5001\<rparr>], calls = []\<rparr>) =
     Inr \<lparr>success = True, limit = 2, remaining = 1, reset = 6000\<rparr>"
proof -
  have W: "(0::int) < 1000" by simp
  have U: "(0::int) < 1000" by simp
  let ?k = "join_number ''user'' 5"
  let ?s = "\<lparr>db = [?k \<mapsto> \<lparr>val = Counter 2, expireAt = Some 1005000\<rparr>], calls = []\<rparr>"
  let ?x = "\<lparr>db = [?k \<mapsto> \<lparr>val = Counter 7, expireAt = Some 5001\<rparr>], calls = []\<rparr>"
  have ha: "call_GET 5000 (join_number ''user'' (5000 div 1000)) (db empty_redis) = Inr None
          \<and> (1::int) = (case None of None \<Rightarrow> 1 | Some n \<Rightarrow> n)
          \<and> (1::int) = (case None of None \<Rightarrow> 1 | Some n \<Rightarrow> n + 1)"
    by (simp add: call_GET_def lookup_def empty_redis_def)
  have hb: "call_GET 5001 (join_number ''user'' (5001 div 1000)) (db ?s) = Inr (Some 2)
          \<and> (2::int) = (case Some 2 of None \<Rightarrow> 1 | Some n \<Rightarrow> n)
          \<and> (3::int) = (case Some 2 of None \<Rightarrow> 1 | Some n \<Rightarrow> n + 1)"
    by (simp add: call_GET_def lookup_def)
  have hc: "db ?x (join_number ''user'' (5001 div 1000)) = None
          \<or> (db ?x (join_number ''user'' (5001 div 1000)) = Some \<lparr>val = Counter 7, expireAt = Some 5001\<rparr>
              \<and> expireAt \<lparr>val = Counter 7, expireAt = Some 5001\<rparr> = Some 5001 \<and> (5001::int) \<le> 5001)"
    by simp
  have lb: "lookup (db ?s) 5001 ?k = Some \<lparr>val = Counter 2, expireAt = Some 1005000\<rparr>"
    by (simp add: lookup_def)
  note a = eventualWrite_spec [OF W U, of 5000 "''user''" empty_redis 2, THEN conjunct1,
             THEN spec, THEN spec, THEN spec, THEN mp, OF ha]
  note b = eventualWrite_spec [OF W U, of 5001 "''user''" ?s 2, THEN conjunct1,
             THEN spec, THEN spec, THEN spec, THEN mp, OF hb]
  note c = eventualWrite_spec [OF W U, of 5001 "''user''" ?x 2, THEN conjunct2,
             THEN spec, THEN spec, THEN mp, OF hc]
  from a have 1: "eventualWrite 1000 2 1000 ''user'' 5000 empty_redis =
     (Inr \<lparr>success = True, limit = 2, remaining = 1, reset = 6000\<rparr>,
      \<lparr>db = [?k \<mapsto> \<lparr>val = Counter 1, expireAt = Some 1005000\<rparr>],
       calls = [GET ?k, INCR ?k, EXPIRE ?k 1000]\<rparr>)"
    by (simp add: empty_redis_def)
  from b lb have 2: "eventualWrite 1000 2 1000 ''user'' 5001 ?s =
     (Inr \<lparr>success = True, limit = 2, remaining = 0, reset = 6000\<rparr>,
      \<lparr>db = [?k \<mapsto> \<lparr>val = Counter 3, expireAt = Some 1005000\<rparr>],
       calls = [GET ?k, INCR ?k]\<rparr>)"
    by simp
  from c have 3: "fst (eventualWrite 1000 2 1000 ''user'' 5001 ?x) =
     Inr \<lparr>success = True, limit = 2, remaining = 1, reset = 6000\<rparr>"
    by simp
  from 1 2 3 show ?thesis by blast
qed

text \<open>
  Claim C7 (the reset time of a denial). For each of the four algorithms with a positive
  window or interval, and a call at a time \<open>now > 0\<close>, the response has \<open>reset > now\<close>, so
  \<open>reset\<close> is not \<open>0\<close>; this holds for every response, the denials among them. Hence
  \<^verbatim>\<open>blockUntilReady\<close>, polling one of these algorithms from a positive clock, never ends
  in its error for a denial with \<open>reset = 0\<close>, however many attempts it is allowed.
\<close>

theorem denial_reset_in_future:
  assumes "0 < period alg" and "0 < now"
  shows "(\<forall>r s'. limiter_of alg identifier now s = (Inr r, s') \<longrightarrow> now < reset r \<and> reset r \<noteq> 0)
       \<and> (\<forall>fuel (this::Ratelimit) ident timeout (w::world).
            limiter this = limiter_of alg \<and> 0 < clock w \<longrightarrow>
            fst (blockUntilReady fuel this ident timeout w) \<noteq> Some (Inl ThisShouldNotHappen))"
proof (intro conjI allI impI)
  fix r s'
  assume "limiter_of alg identifier now s = (Inr r, s')"
  from limiter_reset_future [OF assms(1) this] assms(2)
  show "now < reset r" and "reset r \<noteq> 0" by simp_all
next
  fix fuel and this :: Ratelimit and ident timeout and w :: world
  assume h: "limiter this = limiter_of alg \<and> 0 < clock w"
  then have l: "limiter this = limiter_of alg" and c: "0 < clock w" by simp_all
  show "fst (blockUntilReady fuel this ident timeout w) \<noteq> Some (Inl ThisShouldNotHappen)"
    using blockUntilReady_loop_no_violation [OF assms(1) l c]
    by (simp add: blockUntilReady_def Let_def)
qed

theorem denial_reset_in_future_witness:
  "fixedWindow 1 1000 (join ''@upstash/ratelimit'' ''user'') 5001
      \<lparr>db = [join_number (join ''@upstash/ratelimit'' ''user'') 5
                \<mapsto> \<lparr>val = Counter 1, expireAt = Some 6000\<rparr>], calls = []\<rparr>
     = (Inr \<lparr>success = False, limit = 1, remaining = - 1, reset = 6000\<rparr>,
        \<lparr>db = [join_number (join ''@upstash/ratelimit'' ''user'') 5
                  \<mapsto> \<lparr>val = Counter 2, expireAt = Some 6000\<rparr>],
         calls = [EVAL [join_number (join ''@upstash/ratelimit'' ''user'') 5] [1000]]\<rparr>)
   \<and> (5001::int) < reset \<lparr>success = False, limit = 1, remaining = - 1, reset = 6000\<rparr>
   \<and> reset \<lparr>success = False, limit = 1, remaining = - 1, reset = 6000\<rparr> \<noteq> 0
   \<and> fst (blockUntilReady (Suc (Suc (Suc 0))) (new_Ratelimit (fixedWindow 1 1000) None) ''user'' 100
             \<lparr>store = \<lparr>db = [join_number (join ''@upstash/ratelimit'' ''user'') 5
                                \<mapsto> \<lparr>val = Counter 1, expireAt = Some 6000\<rparr>], calls = []\<rparr>,
              clock = 5001\<rparr>)
       = Some (Inr \<lparr>success = False, limit = 1, remaining = - 2, reset = 6000\<rparr>)
   \<and> fst (blockUntilReady (Suc (Suc (Suc 0))) (new_Ratelimit (fixedWindow 1 1000) None) ''user'' 100
             \<lparr>store = \<lparr>db = [join_number (join ''@upstash/ratelimit'' ''user'') 5
                                \<mapsto> \<lparr>val = Counter 1, expireAt = Some 6000\<rparr>], calls = []\<rparr>,
              clock = 5001\<rparr>)
       \<noteq> Some (Inl ThisShouldNotHappen)"
proof -
  let ?k = "join_number (join ''@upstash/ratelimit'' ''user'') 5"
  let ?s = "\<lparr>db = [?k \<mapsto> \<lparr>val = Counter 1, expireAt = Some 6000\<rparr>], calls = []\<rparr>"
  let ?r = "\<lparr>success = False, limit = 1, remaining = - 1, reset = 6000\<rparr>"
  let ?s' = "\<lparr>db = [?k \<mapsto> \<lparr>val = Counter 2, expireAt = Some 6000\<rparr>], calls = [EVAL [?k] [1000]]\<rparr>"
  have W: "(0::int) < 1000" by simp
  have p: "0 < period (FixedWindow 1 1000)" by simp
  have n: "(0::int) < 5001" by simp
  have g: "call_GET 5001 (join_number (join ''@upstash/ratelimit'' ''user'') (5001 div 1000)) (db ?s)
             = Inr (Some 1)"
    by (simp add: call_GET_def lookup_def)
  have l: "lookup (db ?s) 5001 ?k = Some \<lparr>val = Counter 1, expireAt = Some 6000\<rparr>"
    by (simp add: lookup_def)
  have 1: "limiter_of (FixedWindow 1 1000) (join ''@upstash/ratelimit'' ''user'') 5001 ?s = (Inr ?r, ?s')"
    using fixedWindow_call [OF W g refl, of 1] l by simp
  have h: "limiter (new_Ratelimit (fixedWindow 1 1000) None) = limiter_of (FixedWindow 1 1000)
           \<and> 0 < clock \<lparr>store = ?s, clock = 5001\<rparr>"
    by (simp add: new_Ratelimit_def)
  have run: "fst (blockUntilReady (Suc (Suc (Suc 0))) (new_Ratelimit (fixedWindow 1 1000) None) ''user'' 100
             \<lparr>store = ?s, clock = 5001\<rparr>)
       = Some (Inr \<lparr>success = False, limit = 1, remaining = - 2, reset = 6000\<rparr>)"
    by (simp add: blockUntilReady_def Ratelimit_limit_def new_Ratelimit_def fixedWindow_def
          fixedWindow_script_def redis_eval_def log_def call_INCR_def lookup_def setTimeout_def Let_def)
  note a = denial_reset_in_future [OF p n, of "join ''@upstash/ratelimit'' ''user''" ?s,
             THEN conjunct1, THEN spec, THEN spec, THEN mp, OF 1]
  note b = denial_reset_in_future [OF p n, of "''user''" ?s, THEN conjunct2,
             THEN spec, THEN spec, THEN spec, THEN spec, THEN spec, THEN mp, OF h]
  from 1 a b run show ?thesis by simp
qed

text \<open>
  Claim C8 (keys). The key sent to the store is the prefix, the identifier and the bucket
  index joined with colons. For a fixed prefix two such keys are equal only if the
  identifiers are equal and the bucket indices are equal, also when an identifier contains
  a colon: the decimal index contains none, so the key splits at its last colon.
\<close>

theorem key_join_injective:
  "(join_number (join p id1) b1 = join_number (join p id2) b2) = (id1 = id2 \<and> b1 = b2)
   \<and> calls (snd (Ratelimit_limit \<lparr>limiter = fixedWindow tokens W, prefix = p\<rparr> identifier now s))
       = calls s @ [EVAL [join_number (join p identifier) (now div W)] [W]]"
proof
  show "(join_number (join p id1) b1 = join_number (join p id2) b2) = (id1 = id2 \<and> b1 = b2)"
    by (auto simp: join_number_eq_iff join_def)
  show "calls (snd (Ratelimit_limit \<lparr>limiter = fixedWindow tokens W, prefix = p\<rparr> identifier now s))
       = calls s @ [EVAL [join_number (join p identifier) (now div W)] [W]]"
    by (simp add: Ratelimit_limit_def fixedWindow_def redis_eval_def log_def Let_def
             split: sum.splits prod.splits)
qed

theorem key_join_injective_witness:
  "join_number (join ''@upstash/ratelimit'' ''a'') 15 \<noteq> join_number (join ''@upstash/ratelimit'' ''a:1'') 5
   \<and> join_number (join ''@upstash/ratelimit'' ''a:1'') 5 \<noteq> join_number (join ''@upstash/ratelimit'' ''a'') 5
   \<and> join_number (join ''@upstash/ratelimit'' ''a:1'') 5 = ''@upstash/ratelimit:a:1:5''"
proof -
  have "join_number (join ''@upstash/ratelimit'' ''a:1'') 5 = ''@upstash/ratelimit:a:1:5''"
    by code_simp
  then show ?thesis
    using key_join_injective [of "''@upstash/ratelimit''" "''a''" 15 "''a:1''" 5, THEN conjunct1]
          key_join_injective [of "''@upstash/ratelimit''" "''a:1''" 5 "''a''" 5, THEN conjunct1]
    by simp
qed

text \<open>
  Claim C9 (non-positive timeout). For every identifier and every \<open>timeout \<le> 0\<close>,
  \<^verbatim>\<open>blockUntilReady\<close> fails with the error for the timeout, whatever the number of
  attempts allowed; the world is returned as it was, so the store has logged no request
  and the clock has not moved: there is no attempt and no retry.
\<close>

theorem blockUntilReady_timeout:
  assumes "timeout \<le> 0"
  shows "blockUntilReady fuel this identifier timeout w = (Some (Inl TimeoutMustBePositive), w)
       \<and> calls (store (snd (blockUntilReady fuel this identifier timeout w))) = calls (store w)"
  using assms by (simp add: blockUntilReady_def)

theorem blockUntilReady_timeout_witness:
  "blockUntilReady 5 (new_Ratelimit (fixedWindow 1 1000) None) ''user'' 0 \<lparr>store = empty_redis, clock = 5001\<rparr>
     = (Some (Inl TimeoutMustBePositive), \<lparr>store = empty_redis, clock = 5001\<rparr>)
   \<and> calls (store (snd (blockUntilReady 5 (new_Ratelimit (fixedWindow 1 1000) None) ''user'' (- 20)
                          \<lparr>store = empty_redis, clock = 5001\<rparr>))) = []"
proof -
  have a: "(0::int) \<le> 0" and b: "(- 20 :: int) \<le> 0" by simp_all
  from blockUntilReady_timeout [OF a, of 5 "new_Ratelimit (fixedWindow 1 1000) None" "''user''"
         "\<lparr>store = empty_redis, clock = 5001\<rparr>"]
       blockUntilReady_timeout [OF b, of 5 "new_Ratelimit (fixedWindow 1 1000) None" "''user''"
         "\<lparr>store = empty_redis, clock = 5001\<rparr>"]
  show ?thesis by (simp add: empty_redis_def)
qed

text \<open>
  Claim C10 (the last token). In the token bucket the request that takes the last token is
  denied although the hash is written: the first request on a missing key when
  \<open>maxTokens = 1\<close>, and the consuming branch when exactly one token is stored, both answer
  \<open>remaining = 0\<close> and \<open>success = False\<close>. Consequently with \<open>maxTokens = 1\<close> every request
  is denied (on any store in which no bucket holds a positive number of tokens, the empty
  store among them), and of the requests of one bucket on a missing key, with
  \<open>M \<ge> 1\<close>, the \<open>n\<close>-th succeeds exactly when \<open>n < M\<close>.
\<close>

theorem tokenBucket_last_token_denied:
  assumes "0 < I"
  shows "(lookup (db s) now (join_number identifier (now div I)) = None \<longrightarrow>
            tokenBucket R I 1 identifier now s =
              (Inr \<lparr>success = False, limit = 1, remaining = 0, reset = now + I\<rparr>,
               s\<lparr>db := (db s)(join_number identifier (now div I) \<mapsto>
                        \<lparr>val = Bucket now 0, expireAt = Some (now + I)\<rparr>),
                 calls := calls s @ [EVAL [join_number identifier (now div I)] [1, I, R, now]]\<rparr>))
       \<and> (\<forall>updatedAt x.
            lookup (db s) now (join_number identifier (now div I))
              = Some \<lparr>val = Bucket updatedAt 1, expireAt = x\<rparr> \<and> now < updatedAt + I \<longrightarrow>
            tokenBucket R I M identifier now s =
              (Inr \<lparr>success = False, limit = M, remaining = 0, reset = updatedAt + I\<rparr>,
               s\<lparr>db := (db s)(join_number identifier (now div I) \<mapsto>
                        \<lparr>val = Bucket now 0, expireAt = x\<rparr>),
                 calls := calls s @ [EVAL [join_number identifier (now div I)] [M, I, R, now]]\<rparr>))
       \<and> (\<forall>ts. (\<forall>k e. db s k = Some e \<longrightarrow> (\<exists>u t. val e = Bucket u t \<and> t \<le> 0)) \<longrightarrow>
            list_all (\<lambda>res. case res of Inl e \<Rightarrow> False | Inr r \<Rightarrow> \<not> success r)
              (fst (requests (tokenBucket R I 1) identifier ts s)))
       \<and> (\<forall>b ts. 1 \<le> M \<and> db s (join_number identifier b) = None \<and> (\<forall>t\<in>set ts. t div I = b) \<longrightarrow>
            map (\<lambda>res. case res of Inl e \<Rightarrow> None | Inr r \<Rightarrow> Some (success r, remaining r))
                (fst (requests (tokenBucket R I M) identifier ts s))
              = map (\<lambda>n. Some (n < M, max 0 (M - n))) [1 .. int (length ts)])"
proof (intro conjI allI impI)
  assume "lookup (db s) now (join_number identifier (now div I)) = None"
  from tokenBucket_fresh [OF assms this, of R 1]
  show "tokenBucket R I 1 identifier now s =
              (Inr \<lparr>success = False, limit = 1, remaining = 0, reset = now + I\<rparr>,
               s\<lparr>db := (db s)(join_number identifier (now div I) \<mapsto>
                        \<lparr>val = Bucket now 0, expireAt = Some (now + I)\<rparr>),
                 calls := calls s @ [EVAL [join_number identifier (now div I)] [1, I, R, now]]\<rparr>)"
    by simp
next
  fix updatedAt x
  assume h: "lookup (db s) now (join_number identifier (now div I))
              = Some \<lparr>val = Bucket updatedAt 1, expireAt = x\<rparr> \<and> now < updatedAt + I"
  then have l: "lookup (db s) now (join_number identifier (now div I))
              = Some \<lparr>val = Bucket updatedAt 1, expireAt = x\<rparr>"
    and n: "\<not> now \<ge> updatedAt + I" by simp_all
  from tokenBucket_consume [OF l n, of R M]
  show "tokenBucket R I M identifier now s =
              (Inr \<lparr>success = False, limit = M, remaining = 0, reset = updatedAt + I\<rparr>,
               s\<lparr>db := (db s)(join_number identifier (now div I) \<mapsto>
                        \<lparr>val = Bucket now 0, expireAt = x\<rparr>),
                 calls := calls s @ [EVAL [join_number identifier (now div I)] [M, I, R, now]]\<rparr>)"
    by simp
next
  fix ts
  assume "\<forall>k e. db s k = Some e \<longrightarrow> (\<exists>u t. val e = Bucket u t \<and> t \<le> 0)"
  from tokenBucket_one_requests [OF this, of R I "identifier" ts]
  show "list_all (\<lambda>res. case res of Inl e \<Rightarrow> False | Inr r \<Rightarrow> \<not> success r)
              (fst (requests (tokenBucket R I 1) identifier ts s))"
    by (auto simp: list_all_iff)
next
  fix b ts
  assume h: "1 \<le> M \<and> db s (join_number identifier b) = None \<and> (\<forall>t\<in>set ts. t div I = b)"
  then have M: "1 \<le> M" and f: "db s (join_number identifier b) = None"
    and ts: "\<forall>t\<in>set ts. t div I = b" by simp_all
  from tokenBucket_requests_fresh [OF assms M f ts, of R]
  show "map (\<lambda>res. case res of Inl e \<Rightarrow> None | Inr r \<Rightarrow> Some (success r, remaining r))
                (fst (requests (tokenBucket R I M) identifier ts s))
              = map (\<lambda>n. Some (n < M, max 0 (M - n))) [1 .. int (length ts)]"
    by simp
qed

theorem tokenBucket_last_token_denied_witness:
  "tokenBucket 1 1000 1 ''user'' 5000 empty_redis =
     (Inr \<lparr>success = False, limit = 1, remaining = 0, reset = 6000\<rparr>,
      \<lparr>db = [join_number ''user'' 5 \<mapsto> \<lparr>val = Bucket 5000 0, expireAt = Some 6000\<rparr>],
       calls = [EVAL [join_number ''user'' 5] [1, 1000, 1, 5000]]\<rparr>)
   \<and> tokenBucket 1 1000 3 ''user'' 5001
        \<lparr>db = [join_number ''user'' 5 \<mapsto> \<lparr>val = Bucket 5000 1, expireAt = Some 6000\<rparr>], calls = []\<rparr> =
     (Inr \<lparr>success = False, limit = 3, remaining = 0, reset = 6000\<rparr>,
      \<lparr>db = [join_number ''user'' 5 \<mapsto> \<lparr>val = Bucket 5001 0, expireAt = Some 6000\<rparr>],
       calls = [EVAL [join_number ''user'' 5] [3, 1000, 1, 5001]]\<rparr>)
   \<and> list_all (\<lambda>res. case res of Inl e \<Rightarrow> False | Inr r \<Rightarrow> \<not> success r)
        (fst (requests (tokenBucket 1 1000 1) ''user'' [5000, 5001, 6000, 7500] empty_redis))
   \<and> map (\<lambda>res. case res of Inl e \<Rightarrow> None | Inr r \<Rightarrow> Some (success r, remaining r))
        (fst (requests (tokenBucket 1 1000 3) ''user'' [5000, 5001, 5002, 5003] empty_redis))
       = [Some (True, 2), Some (True, 1), Some (False, 0), Some (False, 0)]"
proof -
  have I: "(0::int) < 1000" by simp
  let ?k = "join_number ''user'' 5"
  let ?s = "\<lparr>db = [?k \<mapsto> \<lparr>val = Bucket 5000 1, expireAt = Some 6000\<rparr>], calls = []\<rparr>"
  have la: "lookup (db empty_redis) 5000 (join_number ''user'' (5000 div 1000)) = None"
    by (simp add: lookup_def empty_redis_def)
  have lb: "lookup (db ?s) 5001 (join_number ''user'' (5001 div 1000))
              = Some \<lparr>val = Bucket 5000 1, expireAt = Some 6000\<rparr> \<and> (5001::int) < 5000 + 1000"
    by (simp add: lookup_def)
  have inv: "\<forall>k e. db empty_redis k = Some e \<longrightarrow> (\<exists>u t. val e = Bucket u t \<and> t \<le> 0)"
    by (simp add: empty_redis_def)
  have seq: "(1::int) \<le> 3 \<and> db empty_redis (join_number ''user'' 5) = None
             \<and> (\<forall>t\<in>set [5000, 5001, 5002, 5003]. t div 1000 = (5::int))"
    by (simp add: empty_redis_def)
  have u: "[1 .. 4] = [1, 2, 3, 4::int]" by (simp add: upto_rec1)
  note a = tokenBucket_last_token_denied [OF I, of empty_redis 5000 "''user''" 1, THEN conjunct1, THEN mp, OF la]
  note b = tokenBucket_last_token_denied [OF I, of ?s 5001 "''user''" 1 3, THEN conjunct2, THEN conjunct1,
             THEN spec, THEN spec, THEN mp, OF lb]
  note c = tokenBucket_last_token_denied [OF I, of empty_redis 5000 "''user''" 1 3, THEN conjunct2,
             THEN conjunct2, THEN conjunct1, THEN spec, THEN mp, OF inv]
  note d = tokenBucket_last_token_denied [OF I, of empty_redis 5000 "''user''" 1 3, THEN conjunct2,
             THEN conjunct2, THEN conjunct2, THEN spec, THEN spec, THEN mp, OF seq]
  from a have 1: "tokenBucket 1 1000 1 ''user'' 5000 empty_redis =
     (Inr \<lparr>success = False, limit = 1, remaining = 0, reset = 6000\<rparr>,
      \<lparr>db = [?k \<mapsto> \<lparr>val = Bucket 5000 0, expireAt = Some 6000\<rparr>],
       calls = [EVAL [?k] [1, 1000, 1, 5000]]\<rparr>)"
    by (simp add: empty_redis_def)
  from b have 2: "tokenBucket 1 1000 3 ''user'' 5001 ?s =
     (Inr \<lparr>success = False, limit = 3, remaining = 0, reset = 6000\<rparr>,
      \<lparr>db = [?k \<mapsto> \<lparr>val = Bucket 5001 0, expireAt = Some 6000\<rparr>],
       calls = [EVAL [?k] [3, 1000, 1, 5001]]\<rparr>)"
    by simp
  have 3: "list_all (\<lambda>res. case res of Inl e \<Rightarrow> False | Inr r \<Rightarrow> \<not> success r)
        (fst (requests (tokenBucket 1 1000 1) ''user'' [5000, 5001, 6000, 7500] empty_redis))"
    by (rule c)
  from d have 4: "map (\<lambda>res. case res of Inl e \<Rightarrow> None | Inr r \<Rightarrow> Some (success r, remaining r))
        (fst (requests (tokenBucket 1 1000 3) ''user'' [5000, 5001, 5002, 5003] empty_redis))
       = [Some (True, 2), Some (True, 1), Some (False, 0), Some (False, 0)]"
    by (simp add: u del: requests.simps)
  from 1 2 3 4 show ?thesis by blast
qed

end
